theory Spec2Isabelle
  imports Main
begin

section \<open>The retrying call executor (\<open>withRetry\<close>, src/index.js)\<close>

text \<open>
  A promise settles in one of two ways. An error thrown by a remote call is an object that
  may carry a numeric \<open>status\<close> and a numeric \<open>statusCode\<close> property; a missing property
  reads as \<open>undefined\<close>, modelled by \<open>None\<close>.
\<close>

datatype err = Err (status: "int option") (statusCode: "int option") (message: string)

datatype 'a outcome = Resolved 'a | Rejected err

text \<open>JavaScript truthiness of an optional number, and \<open>a || b\<close> on two of them.\<close>

definition truthy_num :: "int option \<Rightarrow> bool" where
  "truthy_num v = (case v of None \<Rightarrow> False | Some n \<Rightarrow> n \<noteq> 0)"

definition js_or :: "int option \<Rightarrow> int option \<Rightarrow> int option" where
  "js_or a b = (if truthy_num a then a else b)"

text \<open>\<open>const status = err?.status || err?.statusCode\<close>\<close>

definition err_status :: "err \<Rightarrow> int option" where
  "err_status e = js_or (status e) (statusCode e)"

text \<open>\<open>status && status < 500 && status !== 429\<close>: the error is surfaced without retry.\<close>

definition fatal :: "err \<Rightarrow> bool" where
  "fatal e = (case err_status e of
                None \<Rightarrow> False
              | Some s \<Rightarrow> s \<noteq> 0 \<and> s < 500 \<and> s \<noteq> 429)"

text \<open>
  What one call of \<open>withRetry\<close> did: how its promise settled, how many times it invoked
  the operation, and the delays (in ms) it slept, in order.
\<close>

record 'a retry_run =
  result :: "'a outcome"
  calls :: nat
  waits :: "nat list"

text \<open>
  The \<open>while (true)\<close> loop. The operation is a zero-argument callable whose successive
  invocations may settle differently: \<open>fn k\<close> is how invocation number \<open>k\<close> (from 0)
  settles. The loop state is \<open>attempt\<close> and \<open>wait\<close> as in the source; \<open>n\<close> counts the
  invocations made so far and \<open>slept\<close> logs the delays passed to \<open>setTimeout\<close>.
\<close>

function withRetry_loop ::
  "(nat \<Rightarrow> 'a outcome) \<Rightarrow> nat \<Rightarrow> nat \<Rightarrow> nat \<Rightarrow> nat list \<Rightarrow> 'a retry_run" where
  "withRetry_loop fn attempt wait n slept =
     (case fn n of
        Resolved v \<Rightarrow> \<lparr>result = Resolved v, calls = Suc n, waits = slept\<rparr>
      | Rejected e \<Rightarrow>
          (if Suc attempt \<ge> 5 \<or> fatal e
           then \<lparr>result = Rejected e, calls = Suc n, waits = slept\<rparr>
           else withRetry_loop fn (Suc attempt) (min (wait * 2) 5000) (Suc n) (slept @ [wait])))"
  by pat_completeness auto
termination
  by (relation "measure (\<lambda>(fn, attempt, wait, n, slept). 5 - attempt)") auto

definition withRetry :: "(nat \<Rightarrow> 'a outcome) \<Rightarrow> 'a retry_run" where
  "withRetry fn = withRetry_loop fn 0 500 0 []"



section \<open>The bounded concurrency limiter (\<open>createLimit\<close>, src/index.js)\<close>

text \<open>
  The closure state of \<open>createLimit(concurrency)\<close>: the counter \<open>active\<close> and the array
  \<open>queue\<close> of pending items \<open>{fn, resolve, reject}\<close>. An item is named by an identifier of
  type \<open>'i\<close>; every call of the returned function makes a new item.
\<close>

record 'i limiter =
  active :: int
  queue :: "'i list"

text \<open>
  The closure \<open>next\<close>. It returns the new closure state and the item whose \<open>fn\<close> it called,
  if any: nothing when \<open>active >= concurrency\<close>, nothing when \<open>queue.shift()\<close> finds the
  queue empty, otherwise the head of the queue after \<open>active++\<close>.
\<close>

definition lim_next ::
  "int \<Rightarrow> ('i, 'm) limiter_scheme \<Rightarrow> ('i, 'm) limiter_scheme \<times> 'i option" where
  "lim_next concurrency L =
     (if active L \<ge> concurrency then (L, None)
      else (case queue L of
              [] \<Rightarrow> (L, None)
            | item # rest \<Rightarrow> (L\<lparr>queue := rest, active := active L + 1\<rparr>, Some item)))"

text \<open>
  The limiter inside the JavaScript event loop. Besides the closure state there are: the
  number of \<open>next\<close> callbacks scheduled with \<open>setImmediate\<close> and not yet run; the items
  whose \<open>fn()\<close> was called and whose own promise is pending (\<open>running\<close>); the items whose
  own promise has settled and been passed on by the \<open>then\<close>/\<open>catch\<close> handlers, while the
  \<open>finally\<close> handler has not run yet (\<open>releasing\<close>); how the promise returned by
  \<open>limit(fn)\<close> settled (\<open>settled\<close>); and two logs, the order of the \<open>limit(fn)\<close> calls and
  the order of the \<open>item.fn()\<close> calls.
\<close>

record ('i, 'a) lim_sys = "'i limiter" +
  timers :: nat
  running :: "'i list"
  releasing :: "'i list"
  settled :: "'i \<rightharpoonup> 'a outcome"
  submitted :: "'i list"
  started :: "'i list"

definition lim_init :: "('i, 'a) lim_sys" where
  "lim_init = \<lparr>active = 0, queue = [], timers = 0, running = [], releasing = [],
               settled = Map.empty, submitted = [], started = []\<rparr>"

text \<open>A call of \<open>next()\<close> inside the system: the item it starts, if any, is now running.\<close>

definition run_next :: "int \<Rightarrow> ('i, 'a) lim_sys \<Rightarrow> ('i, 'a) lim_sys" where
  "run_next concurrency s =
     (case lim_next concurrency s of
        (s', None) \<Rightarrow> s'
      | (s', Some item) \<Rightarrow> s'\<lparr>running := running s' @ [item], started := started s' @ [item]\<rparr>)"

text \<open>
  \<open>.then((res) => item.resolve(res)).catch((err) => item.reject(err))\<close>: how the promise
  returned by \<open>limit(fn)\<close> settles when the promise of \<open>item.fn()\<close> settles with \<open>r\<close>.
\<close>

definition pass_on :: "'a outcome \<Rightarrow> 'a outcome" where
  "pass_on r = (case r of Resolved res \<Rightarrow> Resolved res | Rejected err \<Rightarrow> Rejected err)"

text \<open>
  What can happen, one callback at a time (the event loop runs each to completion):
  \<^item> \<open>Submit t\<close>: a caller runs \<open>limit(fn)\<close>, making the new item \<open>t\<close>: \<open>queue.push\<close> and
    \<open>setImmediate(next)\<close>;
  \<^item> \<open>Tick\<close>: one scheduled \<open>next\<close> callback runs;
  \<^item> \<open>Settle t r\<close>: the promise of the running item \<open>t\<close> settles with \<open>r\<close> and the
    \<open>then\<close>/\<open>catch\<close> handlers pass it on;
  \<^item> \<open>Release t\<close>: the \<open>finally\<close> handler of \<open>t\<close> runs: \<open>active--; next()\<close>.
  An event that cannot happen in a state gives \<open>None\<close>.
\<close>

datatype ('i, 'a) lim_event = Submit 'i | Tick | Settle 'i "'a outcome" | Release 'i

fun lim_step :: "int \<Rightarrow> ('i, 'a) lim_sys \<Rightarrow> ('i, 'a) lim_event \<Rightarrow> ('i, 'a) lim_sys option" where
  "lim_step c s (Submit t) =
     (if t \<in> set (submitted s) then None
      else Some (s\<lparr>queue := queue s @ [t], timers := Suc (timers s),
                   submitted := submitted s @ [t]\<rparr>))"
| "lim_step c s Tick =
     (if timers s = 0 then None
      else Some (run_next c (s\<lparr>timers := timers s - 1\<rparr>)))"
| "lim_step c s (Settle t r) =
     (if t \<in> set (running s)
      then Some (s\<lparr>running := remove1 t (running s), releasing := releasing s @ [t],
                   settled := (settled s)(t \<mapsto> pass_on r)\<rparr>)
      else None)"
| "lim_step c s (Release t) =
     (if t \<in> set (releasing s)
      then Some (run_next c (s\<lparr>releasing := remove1 t (releasing s), active := active s - 1\<rparr>))
      else None)"

fun lim_run ::
  "int \<Rightarrow> ('i, 'a) lim_sys \<Rightarrow> ('i, 'a) lim_event list \<Rightarrow> ('i, 'a) lim_sys option" where
  "lim_run c s [] = Some s"
| "lim_run c s (e # es) = (case lim_step c s e of None \<Rightarrow> None | Some s' \<Rightarrow> lim_run c s' es)"


text \<open>
  When the promise of a running task settles is up to the task, not to the limiter: \<open>ready s t\<close>
  says that in state \<open>s\<close> the promise the function of the running item \<open>t\<close> returned can settle.
  A task that waits for something that has yet to happen, such as the settling of another
  item of the limiter, is not ready. \<open>may_run ready s e\<close>: the callback \<open>e\<close> is one of those that
  run with no further submission, and if it is the settling of a task, the task is ready.
\<close>

fun may_run ::
  "(('i, 'a) lim_sys \<Rightarrow> 'i \<Rightarrow> bool) \<Rightarrow> ('i, 'a) lim_sys \<Rightarrow> ('i, 'a) lim_event \<Rightarrow> bool" where
  "may_run ready s (Submit t) = False"
| "may_run ready s Tick = True"
| "may_run ready s (Settle t r) = ready s t"
| "may_run ready s (Release t) = True"

definition all_settled :: "('i, 'a) lim_sys \<Rightarrow> bool" where
  "all_settled s = (\<forall>t \<in> set (submitted s). settled s t \<noteq> None)"

text \<open>
  \<open>settles_eventually ready c s\<close>: from \<open>s\<close>, with no further submission, however the callbacks
  interleave and however the ready tasks settle, a state where the promise of every submitted
  task has settled is reached: either \<open>s\<close> is such a state, or some callback can run and
  every state a callback leads to settles eventually.
\<close>

inductive settles_eventually ::
  "(('i, 'a) lim_sys \<Rightarrow> 'i \<Rightarrow> bool) \<Rightarrow> int \<Rightarrow> ('i, 'a) lim_sys \<Rightarrow> bool"
  for ready :: "('i, 'a) lim_sys \<Rightarrow> 'i \<Rightarrow> bool" and c :: int where
  now: "all_settled s \<Longrightarrow> settles_eventually ready c s"
| later: "\<exists>e. may_run ready s e \<and> lim_step c s e \<noteq> None \<Longrightarrow>
          (\<And>e s'. may_run ready s e \<Longrightarrow> lim_step c s e = Some s' \<Longrightarrow>
                   settles_eventually ready c s') \<Longrightarrow>
          settles_eventually ready c s"

text \<open>\<open>before xs a b\<close>: \<open>a\<close> occurs in \<open>xs\<close> at an earlier position than \<open>b\<close>.\<close>

definition before :: "'i list \<Rightarrow> 'i \<Rightarrow> 'i \<Rightarrow> bool" where
  "before xs a b = (\<exists>i j. i < j \<and> j < length xs \<and> xs ! i = a \<and> xs ! j = b)"

text \<open>
  What holds in every state the system reaches: \<open>active\<close> counts the items started and not
  yet released; it stays within the ceiling; the items started, followed by those still
  queued, are the items submitted, in that order; a started item is running or its promise has
  settled; and, for a ceiling of at least 1, a non-empty queue always has a scheduled \<open>next\<close>
  or an item in flight to promote it.
\<close>

definition lim_inv :: "int \<Rightarrow> ('i, 'a) lim_sys \<Rightarrow> bool" where
  "lim_inv c s =
     (active s = int (length (running s)) + int (length (releasing s)) \<and>
      (active s \<le> c \<or> active s = 0) \<and>
      started s @ queue s = submitted s \<and>
      distinct (submitted s) \<and>
      (\<forall>t \<in> set (started s). t \<in> set (running s) \<or> settled s t \<noteq> None) \<and>
      (1 \<le> c \<longrightarrow> queue s \<noteq> [] \<longrightarrow> 0 < timers s \<or> 0 < active s))"


section \<open>Signed action links (\<open>buildActionUrl\<close>, src/index.js; \<open>verifySignature\<close>, backend templates)\<close>

text \<open>
  A JavaScript object with string keys is an association list in insertion order. Reading a
  missing key gives \<open>undefined\<close>, here \<open>None\<close>; writing a key keeps its position when it is
  already there and appends it otherwise.
\<close>

type_synonym 'v obj = "(string \<times> 'v) list"

definition obj_get :: "'v obj \<Rightarrow> string \<Rightarrow> 'v option" where
  "obj_get ob k = map_of ob k"

fun obj_set :: "string \<Rightarrow> 'v \<Rightarrow> 'v obj \<Rightarrow> 'v obj" where
  "obj_set k v [] = [(k, v)]"
| "obj_set k v (p # ps) = (if fst p = k then (k, v) # ps else p # obj_set k v ps)"

text \<open>\<open>a || b\<close> where \<open>a\<close> is a string or \<open>undefined\<close>: the empty string is falsy.\<close>

definition str_or :: "string option \<Rightarrow> string \<Rightarrow> string" where
  "str_or a b = (case a of None \<Rightarrow> b | Some v \<Rightarrow> if v = [] then b else v)"

text \<open>\<open>Array.prototype.join\<close> on an array of strings.\<close>

fun join :: "string \<Rightarrow> string list \<Rightarrow> string" where
  "join sep [] = []"
| "join sep [x] = x"
| "join sep (x # y # ys) = x @ sep @ join sep (y # ys)"

text \<open>\<open>baseUrl.replace(/\/$/, '')\<close>\<close>

definition strip_trailing_slash :: "string \<Rightarrow> string" where
  "strip_trailing_slash u = (if u \<noteq> [] \<and> last u = CHR ''/'' then butlast u else u)"

text \<open>
  The link built: its path and its query parameters. \<open>URLSearchParams\<close> writes the
  parameters into the URL and the backend reads the same pairs back (\<open>req.query\<close> on Vercel,
  \<open>new URL(url).searchParams\<close> on Workers), so the link is kept as the pairs themselves.
\<close>

record action_url =
  path :: string
  query :: "string obj"

text \<open>
  \<open>buildActionUrl(baseUrl, action, params, secret)\<close>. The function \<open>hmacSign\<close> of both
  files is \<open>crypto.createHmac('sha256', secret).update(payload).digest('hex')\<close>, a library
  call: it is the parameter \<open>hmac\<close>. \<open>Date.now().toString()\<close> and \<open>crypto.randomUUID()\<close>
  are the parameters \<open>ts\<close> and \<open>nonce\<close>.
\<close>

definition buildActionUrl ::
  "(string \<Rightarrow> string \<Rightarrow> string) \<Rightarrow> string \<Rightarrow> string \<Rightarrow>
   string \<Rightarrow> string \<Rightarrow> string obj \<Rightarrow> string \<Rightarrow> action_url" where
  "buildActionUrl hmac ts nonce baseUrl action params secret =
     (let ordered = map (\<lambda>k. str_or (obj_get params k) (if k = ''action'' then action else []))
                      [''taskId'', ''action'', ''ts'', ''nonce'', ''tasksDbId'', ''calendarDbId''];
          sig = (if secret \<noteq> [] then Some (hmac secret (join ''|'' ordered)) else None);
          sp = obj_set ''nonce'' nonce (obj_set ''ts'' ts (obj_set ''action'' action params));
          sp' = (case sig of None \<Rightarrow> sp | Some g \<Rightarrow> if g = [] then sp else obj_set ''sig'' g sp)
      in \<lparr>path = strip_trailing_slash baseUrl @ ''/a/'' @ action, query = sp'\<rparr>)"

text \<open>
  \<open>verifySignature(secret, query)\<close> of the Vercel backend; the Workers backend
  (\<open>verifySignature(secret, url)\<close>) reads the same parameters from the URL and does the same.
\<close>

definition verifySignature :: "(string \<Rightarrow> string \<Rightarrow> string) \<Rightarrow> string \<Rightarrow> string obj \<Rightarrow> bool" where
  "verifySignature hmac secret q =
     (let sig = str_or (obj_get q ''sig'') [];
          action = str_or (obj_get q ''action'') [];
          taskId = str_or (obj_get q ''taskId'') [];
          ts = str_or (obj_get q ''ts'') [];
          nonce = str_or (obj_get q ''nonce'') [];
          tasksDbId = str_or (obj_get q ''tasksDbId'') [];
          calendarDbId = str_or (obj_get q ''calendarDbId'') []
      in if sig = [] \<or> action = [] \<or> taskId = [] \<or> ts = [] \<or> nonce = [] then False
         else hmac secret (join ''|'' [taskId, action, ts, nonce, tasksDbId, calendarDbId]) = sig)"

section \<open>Sanitizing blocks (\<open>sanitizeBlocks\<close>, src/index.js)\<close>

text \<open>
  JavaScript values as far as block data goes: the data a JSON response can hold, and
  \<open>undefined\<close>.
  \<^item> A number is kept as the text \<open>Number::toString\<close> gives for it (\<open>0\<close>, \<open>-1.5\<close>, \<open>1e+21\<close>,
    \<open>NaN\<close>, \<open>Infinity\<close>), which is also what \<open>JSON.stringify\<close> writes for a finite number: the
    code below looks at a number only through that text and its truthiness (so \<open>-0\<close>, whose
    text is \<open>0\<close> and which \<open>JSON\<close> copies to \<open>0\<close>, is not told from \<open>0\<close>).
  \<^item> A string is the list of its code units (those below 256).
  \<^item> An array and an object carry their identity, a number: two references are aliases of
    one another when they carry the same number. An object is the list of its own
    properties, in the order \<open>JSON.stringify\<close> and the spread visit them; an array has no
    property besides its elements, and no holes.
  A block, the argument of the callback of \<open>blocks.map\<close>, is the list of the own properties
  of the block object; so is the object \<open>base\<close> the callback builds, in the order the
  properties are made.
\<close>

datatype jsval =
    JUndefined
  | JNull
  | JBool bool
  | JNum string
  | JStr string
  | JArr nat "jsval list"
  | JObj nat "(string \<times> jsval) list"

datatype js_error = TypeError | SyntaxError

text \<open>
  The members every object inherits from \<open>Object.prototype\<close>: functions, and the accessor
  \<open>__proto__\<close>.
\<close>

definition inherited_functions :: "string list" where
  "inherited_functions =
     [''constructor'', ''hasOwnProperty'', ''isPrototypeOf'', ''propertyIsEnumerable'',
      ''toLocaleString'', ''toString'', ''valueOf'', ''__defineGetter__'',
      ''__defineSetter__'', ''__lookupGetter__'', ''__lookupSetter__'']"

fun truthy :: "jsval \<Rightarrow> bool" where
  "truthy JUndefined = False"
| "truthy JNull = False"
| "truthy (JBool b) = b"
| "truthy (JNum n) = (n \<noteq> ''0'' \<and> n \<noteq> ''NaN'')"
| "truthy (JStr s) = (s \<noteq> [])"
| "truthy (JArr a xs) = True"
| "truthy (JObj a ps) = True"

text \<open>Decimal digits of an array index, for property keys.\<close>

definition digit_char :: "nat \<Rightarrow> char" where
  "digit_char d = ''0123456789'' ! d"

function show_nat :: "nat \<Rightarrow> string" where
  "show_nat n = (if n < 10 then [digit_char n] else show_nat (n div 10) @ [digit_char (n mod 10)])"
  by pat_completeness auto
termination
  by (relation "measure id") auto

text \<open>
  The property key a value stands for in \<open>b[type]\<close> (\<open>ToString\<close>): a string is its own
  key, a number its text, an array its elements' keys joined by commas with \<open>null\<close> and
  \<open>undefined\<close> empty, an object \<open>[object Object]\<close>. The conversion throws a \<open>TypeError\<close> for an
  object with an own property \<open>toString\<close> (which, in block data, is no function, and the
  inherited \<open>valueOf\<close> gives the object back), also when it sits in an array: \<open>has_key\<close>
  says that it does not throw.
\<close>

fun to_key :: "jsval \<Rightarrow> string" and to_key_elems :: "jsval list \<Rightarrow> string list" where
  "to_key JUndefined = ''undefined''"
| "to_key JNull = ''null''"
| "to_key (JBool b) = (if b then ''true'' else ''false'')"
| "to_key (JNum n) = n"
| "to_key (JStr s) = s"
| "to_key (JArr a xs) = join '','' (to_key_elems xs)"
| "to_key (JObj a ps) = ''[object Object]''"
| "to_key_elems [] = []"
| "to_key_elems (x # xs) =
     (if x = JUndefined \<or> x = JNull then [] else to_key x) # to_key_elems xs"

fun has_key :: "jsval \<Rightarrow> bool" and has_key_elems :: "jsval list \<Rightarrow> bool" where
  "has_key (JArr a xs) = has_key_elems xs"
| "has_key (JObj a ps) = (map_of ps ''toString'' = None)"
| "has_key JUndefined = True"
| "has_key JNull = True"
| "has_key (JBool b) = True"
| "has_key (JNum n) = True"
| "has_key (JStr s) = True"
| "has_key_elems [] = True"
| "has_key_elems (x # xs) = (has_key x \<and> has_key_elems xs)"

text \<open>Reading an own property that is not an inherited name; a missing one reads as \<open>undefined\<close>.\<close>

definition js_prop :: "jsval obj \<Rightarrow> string \<Rightarrow> jsval" where
  "js_prop ob k = (case map_of ob k of None \<Rightarrow> JUndefined | Some v \<Rightarrow> v)"

text \<open>
  Reading \<open>b[key]\<close> for any key: an own property, or else what the object inherits under
  that name: a function, the prototype object (for \<open>__proto__\<close>), or nothing.
\<close>

datatype member_read = Own jsval | Inherited_function | Inherited_prototype | Absent

definition js_member :: "jsval obj \<Rightarrow> string \<Rightarrow> member_read" where
  "js_member ob k =
     (case map_of ob k of
        Some v \<Rightarrow> Own v
      | None \<Rightarrow>
          if k = ''__proto__'' then Inherited_prototype
          else if k \<in> set inherited_functions then Inherited_function
          else Absent)"

text \<open>
  \<open>JSON.parse(JSON.stringify(v))\<close> for a value \<open>v\<close> other than \<open>undefined\<close>: every array and
  object of the result is new. The second argument is the first identity not yet in use;
  the result comes with the next one. An \<open>undefined\<close> array element becomes \<open>null\<close>, a
  property holding \<open>undefined\<close> is left out, and a number that is not finite becomes \<open>null\<close>.
\<close>

fun json_copy :: "jsval \<Rightarrow> nat \<Rightarrow> jsval \<times> nat"
  and json_copy_elems :: "jsval list \<Rightarrow> nat \<Rightarrow> jsval list \<times> nat"
  and json_copy_props :: "(string \<times> jsval) list \<Rightarrow> nat \<Rightarrow> (string \<times> jsval) list \<times> nat" where
  "json_copy (JArr a xs) n = (case json_copy_elems xs (Suc n) of (ys, n') \<Rightarrow> (JArr n ys, n'))"
| "json_copy (JObj a ps) n = (case json_copy_props ps (Suc n) of (qs, n') \<Rightarrow> (JObj n qs, n'))"
| "json_copy JUndefined n = (JUndefined, n)"
| "json_copy JNull n = (JNull, n)"
| "json_copy (JBool b) n = (JBool b, n)"
| "json_copy (JNum t) n =
     (if t = ''NaN'' \<or> t = ''Infinity'' \<or> t = ''-Infinity'' then (JNull, n) else (JNum t, n))"
| "json_copy (JStr s) n = (JStr s, n)"
| "json_copy_elems [] n = ([], n)"
| "json_copy_elems (x # xs) n =
     (case (if x = JUndefined then (JNull, n) else json_copy x n) of
        (y, n1) \<Rightarrow> (case json_copy_elems xs n1 of (ys, n2) \<Rightarrow> (y # ys, n2)))"
| "json_copy_props [] n = ([], n)"
| "json_copy_props (p # ps) n =
     (if snd p = JUndefined then json_copy_props ps n
      else (case json_copy (snd p) n of
              (v, n1) \<Rightarrow> (case json_copy_props ps n1 of (qs, n2) \<Rightarrow> ((fst p, v) # qs, n2))))"

text \<open>
  \<open>({ ...rt })\<close>: a new object with the own enumerable properties of \<open>rt\<close>. An object gives
  its properties, an array or a string its elements under their indices, anything else
  nothing. The property values are those of \<open>rt\<close>, not copies.
\<close>

definition spread :: "jsval \<Rightarrow> nat \<Rightarrow> jsval" where
  "spread rt n =
     (case rt of
        JObj a ps \<Rightarrow> JObj n ps
      | JArr a xs \<Rightarrow> JObj n (zip (map show_nat [0 ..< length xs]) xs)
      | JStr s \<Rightarrow> JObj n (zip (map show_nat [0 ..< length s]) (map (\<lambda>c. JStr [c]) s))
      | _ \<Rightarrow> JObj n [])"

text \<open>\<open>rich_text.map(rt => ({ ...rt }))\<close> without the new array: one new object per element.\<close>

fun spread_all :: "jsval list \<Rightarrow> nat \<Rightarrow> jsval list \<times> nat" where
  "spread_all [] n = ([], n)"
| "spread_all (rt # rts) n = (case spread_all rts (Suc n) of (out, n') \<Rightarrow> (spread rt n # out, n'))"

text \<open>\<open>v?.rich_text\<close>: only an object has such a property.\<close>

definition rich_text_of :: "jsval \<Rightarrow> jsval" where
  "rich_text_of p = (case p of JObj a ps \<Rightarrow> js_prop ps ''rich_text'' | _ \<Rightarrow> JUndefined)"

text \<open>
  The callback of \<open>blocks.map\<close>, for a type tag that is not \<open>__proto__\<close>, in its three steps:
  \<open>base = { type }\<close> with the copy of \<open>b[type]\<close> when that is truthy; the copy of the
  \<open>rich_text\<close> array, element by element, stored in the copied payload, when
  \<open>base[type]?.rich_text\<close> is truthy; the \<open>has_children\<close> marker. Calling \<open>.map\<close> on a
  \<open>rich_text\<close> that is truthy and not an array throws a \<open>TypeError\<close> (\<open>map\<close> is not a
  function). What \<open>base\<close> inherits under the key, a function or \<open>Object.prototype\<close>, has no
  \<open>rich_text\<close>. Each step takes the first identity not in use and gives the next one.
\<close>

definition copy_payload :: "jsval obj \<Rightarrow> jsval \<Rightarrow> nat \<Rightarrow> jsval obj \<times> nat" where
  "copy_payload b p n =
     (let type = js_prop b ''type'';
          base = [(''type'', type)]
      in if truthy p
         then (case json_copy p n of (cp, n') \<Rightarrow> (obj_set (to_key type) cp base, n'))
         else (base, n))"

definition copy_rich_text :: "string \<Rightarrow> jsval obj \<Rightarrow> nat \<Rightarrow> js_error + jsval obj \<times> nat" where
  "copy_rich_text key base n =
     (case js_member base key of
        Own payload \<Rightarrow>
          (let rich = rich_text_of payload
           in if truthy rich
              then (case (payload, rich) of
                      (JObj a ps, JArr r rts) \<Rightarrow>
                        (case spread_all rts (Suc n) of
                           (out, n') \<Rightarrow>
                             Inr (obj_set key (JObj a (obj_set ''rich_text'' (JArr n out) ps)) base, n'))
                    | _ \<Rightarrow> Inl TypeError)
              else Inr (base, n))
      | _ \<Rightarrow> Inr (base, n))"

definition mark_children :: "jsval obj \<Rightarrow> jsval obj \<Rightarrow> jsval obj" where
  "mark_children b base =
     (if truthy (js_prop b ''has_children'') then obj_set ''has_children'' (JBool True) base
      else base)"

text \<open>
  The callback for the type tag \<open>__proto__\<close>, where \<open>p\<close> is what \<open>b[type]\<close> reads: the
  assignment \<open>base[type] = copy\<close> runs the inherited setter, which makes the copy the
  prototype of \<open>base\<close> when it is an object or an array and makes no own property;
  \<open>base[type]\<close> then reads that prototype. A \<open>rich_text\<close> found there is treated as in the
  general case, the new array going into the prototype.
\<close>

definition sanitize_proto :: "jsval obj \<Rightarrow> jsval \<Rightarrow> nat \<Rightarrow> js_error + jsval obj \<times> nat" where
  "sanitize_proto b p n =
     (let base = [(''type'', js_prop b ''type'')]
      in if truthy p
         then (case json_copy p n of
                 (cp, n') \<Rightarrow>
                   if truthy (rich_text_of cp)
                   then (case rich_text_of cp of
                           JArr r rts \<Rightarrow>
                             (case spread_all rts (Suc n') of
                                (out, n'') \<Rightarrow> Inr (mark_children b base, n''))
                         | _ \<Rightarrow> Inl TypeError)
                   else Inr (mark_children b base, n'))
         else Inr (mark_children b base, n))"

text \<open>
  The callback itself. Reading \<open>b[type]\<close> throws when the tag has no property key. Else it
  goes by what \<open>b[type]\<close> reads. An inherited function is truthy, \<open>JSON.stringify\<close> gives
  \<open>undefined\<close> for it and \<open>JSON.parse(undefined)\<close> throws a \<open>SyntaxError\<close>. The inherited
  \<open>__proto__\<close> is \<open>Object.prototype\<close>, whose copy is a new empty object.
\<close>

definition sanitize_block :: "jsval obj \<Rightarrow> nat \<Rightarrow> js_error + jsval obj \<times> nat" where
  "sanitize_block b n =
     (let key = to_key (js_prop b ''type'')
      in if \<not> has_key (js_prop b ''type'') then Inl TypeError
         else case js_member b key of
           Inherited_function \<Rightarrow> Inl SyntaxError
         | Inherited_prototype \<Rightarrow> sanitize_proto b (JObj 0 []) n
         | Absent \<Rightarrow>
             (case copy_payload b JUndefined n of
                (base, n1) \<Rightarrow>
                  (case copy_rich_text key base n1 of
                     Inl e \<Rightarrow> Inl e
                   | Inr (base', n2) \<Rightarrow> Inr (mark_children b base', n2)))
         | Own p \<Rightarrow>
             if key = ''__proto__'' then sanitize_proto b p n
             else (case copy_payload b p n of
                     (base, n1) \<Rightarrow>
                       (case copy_rich_text key base n1 of
                          Inl e \<Rightarrow> Inl e
                        | Inr (base', n2) \<Rightarrow> Inr (mark_children b base', n2))))"

text \<open>\<open>Array.prototype.map\<close> with a callback that may throw: the first throw ends it.\<close>

fun map_blocks :: "jsval obj list \<Rightarrow> nat \<Rightarrow> js_error + jsval obj list" where
  "map_blocks [] n = Inr []"
| "map_blocks (b # bs) n =
     (case sanitize_block b n of
        Inl e \<Rightarrow> Inl e
      | Inr (base, n1) \<Rightarrow>
          (case map_blocks bs n1 of Inl e \<Rightarrow> Inl e | Inr bases \<Rightarrow> Inr (base # bases)))"

text \<open>
  The identities of the arrays and objects in a value, and in the blocks of a list. A new
  array or object gets an identity no object of the blocks at hand has: the first one is the
  least number above all of theirs.
\<close>

fun identities :: "jsval \<Rightarrow> nat list"
  and identities_elems :: "jsval list \<Rightarrow> nat list"
  and identities_props :: "(string \<times> jsval) list \<Rightarrow> nat list" where
  "identities (JArr a xs) = a # identities_elems xs"
| "identities (JObj a ps) = a # identities_props ps"
| "identities JUndefined = []"
| "identities JNull = []"
| "identities (JBool b) = []"
| "identities (JNum t) = []"
| "identities (JStr s) = []"
| "identities_elems [] = []"
| "identities_elems (x # xs) = identities x @ identities_elems xs"
| "identities_props [] = []"
| "identities_props (p # ps) = identities (snd p) @ identities_props ps"

definition block_identities :: "jsval obj list \<Rightarrow> nat list" where
  "block_identities blocks = concat (map identities_props blocks)"

definition first_unused :: "jsval obj list \<Rightarrow> nat" where
  "first_unused blocks = Suc (foldr max (block_identities blocks) 0)"

text \<open>\<open>blocks.map(...).filter(Boolean)\<close>\<close>

definition sanitizeBlocks :: "jsval obj list \<Rightarrow> js_error + jsval obj list" where
  "sanitizeBlocks blocks =
     (case map_blocks blocks (first_unused blocks) of
        Inl e \<Rightarrow> Inl e
      | Inr bases \<Rightarrow> Inr (filter (\<lambda>base. truthy (JObj 0 base)) bases))"

text \<open>
  The content of a value: the value with the identities forgotten. Two values have the same
  content when they differ at most in which objects they are.
\<close>

fun content :: "jsval \<Rightarrow> jsval"
  and content_elems :: "jsval list \<Rightarrow> jsval list"
  and content_props :: "(string \<times> jsval) list \<Rightarrow> (string \<times> jsval) list" where
  "content (JArr a xs) = JArr 0 (content_elems xs)"
| "content (JObj a ps) = JObj 0 (content_props ps)"
| "content JUndefined = JUndefined"
| "content JNull = JNull"
| "content (JBool b) = JBool b"
| "content (JNum t) = JNum t"
| "content (JStr s) = JStr s"
| "content_elems [] = []"
| "content_elems (x # xs) = content x # content_elems xs"
| "content_props [] = []"
| "content_props (p # ps) = (fst p, content (snd p)) # content_props ps"

text \<open>
  JSON data: a value with no \<open>undefined\<close> and no number that is not finite in it. A payload
  as the remote API sends it: JSON data, and its \<open>rich_text\<close>, when it has one, is an array of
  objects.
\<close>

fun is_json :: "jsval \<Rightarrow> bool" and is_json_elems :: "jsval list \<Rightarrow> bool"
  and is_json_props :: "(string \<times> jsval) list \<Rightarrow> bool" where
  "is_json JUndefined = False"
| "is_json JNull = True"
| "is_json (JBool b) = True"
| "is_json (JNum t) = (t \<noteq> ''NaN'' \<and> t \<noteq> ''Infinity'' \<and> t \<noteq> ''-Infinity'')"
| "is_json (JStr s) = True"
| "is_json (JArr a xs) = is_json_elems xs"
| "is_json (JObj a ps) = is_json_props ps"
| "is_json_elems [] = True"
| "is_json_elems (x # xs) = (is_json x \<and> is_json_elems xs)"
| "is_json_props [] = True"
| "is_json_props (p # ps) = (is_json (snd p) \<and> is_json_props ps)"

fun is_object :: "jsval \<Rightarrow> bool" where
  "is_object (JObj a ps) = True"
| "is_object v = False"

definition rich_text_ok :: "jsval \<Rightarrow> bool" where
  "rich_text_ok p =
     (case rich_text_of p of
        JArr a rts \<Rightarrow> list_all is_object rts
      | r \<Rightarrow> \<not> truthy r)"

definition api_payload :: "jsval \<Rightarrow> bool" where
  "api_payload p = (is_json p \<and> rich_text_ok p)"

text \<open>
  The names a type tag must not be for the payload to sit under a key of its own: the two
  other keys of a sanitized block and the names every object inherits.
\<close>

definition reserved_keys :: "string list" where
  "reserved_keys = [''type'', ''has_children'', ''__proto__''] @ inherited_functions"

text \<open>
  A block as the remote API sends it: its type tag has a property key, which is none of the
  reserved names, and its payload (the property the tag names) is falsy or a payload as the
  API sends it.
\<close>

definition block_ok :: "jsval obj \<Rightarrow> bool" where
  "block_ok b =
     (has_key (js_prop b ''type'') \<and>
      to_key (js_prop b ''type'') \<notin> set reserved_keys \<and>
      (\<not> truthy (js_prop b (to_key (js_prop b ''type''))) \<or>
       api_payload (js_prop b (to_key (js_prop b ''type'')))))"

text \<open>
  \<open>sanitized_form blocks b out\<close>: \<open>out\<close> is what the specification asks of the sanitized form
  of the block \<open>b\<close>, one of \<open>blocks\<close>: no key besides \<open>type\<close>, the tag's own key and
  \<open>has_children\<close>; the type tag itself; the marker \<open>has_children = true\<close> exactly when it is
  set on the source; and under the tag's key a deep copy of the payload exactly when the
  source has a truthy one: a value with the content of the payload that shares no array and
  no object with any of \<open>blocks\<close>.
\<close>

definition sanitized_form :: "jsval obj list \<Rightarrow> jsval obj \<Rightarrow> jsval obj \<Rightarrow> bool" where
  "sanitized_form blocks b out =
     (fst ` set out \<subseteq> {''type'', to_key (js_prop b ''type''), ''has_children''} \<and>
      obj_get out ''type'' = Some (js_prop b ''type'') \<and>
      obj_get out ''has_children'' =
        (if truthy (js_prop b ''has_children'') then Some (JBool True) else None) \<and>
      (if truthy (js_prop b (to_key (js_prop b ''type'')))
       then \<exists>q. obj_get out (to_key (js_prop b ''type'')) = Some q \<and>
                content q = content (js_prop b (to_key (js_prop b ''type''))) \<and>
                set (identities q) \<inter> set (block_identities blocks) = {}
       else obj_get out (to_key (js_prop b ''type'')) = None))"

section \<open>The recursive tree replicator (\<open>cloneBlocksRecursive\<close>, src/index.js): creating in batches\<close>

text \<open>\<open>xs.slice(i, j)\<close> for \<open>0 \<le> i \<le> j\<close>.\<close>

definition slice :: "'a list \<Rightarrow> nat \<Rightarrow> nat \<Rightarrow> 'a list" where
  "slice xs i j = take (j - i) (drop i xs)"

text \<open>
  The \<open>for\<close> loop of \<open>cloneBlocksRecursive\<close>, which awaits each
  \<open>withRetry(() => ...append({ children: chunk }))\<close> before it goes on. The remote sink is
  the parameter \<open>appendChildren\<close>: \<open>appendChildren n chunk k\<close> is how attempt \<open>k\<close> of the \<open>n\<close>-th batch settles.
  The loop state is \<open>i\<close> and \<open>created\<close>; \<open>sent\<close> logs the chunks submitted, in order. A
  rejected \<open>withRetry\<close> ends the loop (the \<open>await\<close> throws).
\<close>

function create_loop ::
  "(nat \<Rightarrow> 'b list \<Rightarrow> nat \<Rightarrow> 'c list outcome) \<Rightarrow> 'b list \<Rightarrow> nat \<Rightarrow> 'c list \<Rightarrow> 'b list list \<Rightarrow>
   (err + 'c list) \<times> 'b list list" where
  "create_loop appendChildren sanitized i created sent =
     (if i < length sanitized
      then (let chunk = slice sanitized i (i + 50)
            in case result (withRetry (appendChildren (length sent) chunk)) of
                 Rejected e \<Rightarrow> (Inl e, sent @ [chunk])
               | Resolved results \<Rightarrow>
                   create_loop appendChildren sanitized (i + 50) (created @ results) (sent @ [chunk]))
      else (Inr created, sent))"
  by pat_completeness auto
termination
  by (relation "measure (\<lambda>(appendChildren, sanitized, i, created, sent). length sanitized - i)") auto

definition create_batches ::
  "(nat \<Rightarrow> 'b list \<Rightarrow> nat \<Rightarrow> 'c list outcome) \<Rightarrow> 'b list \<Rightarrow> (err + 'c list) \<times> 'b list list" where
  "create_batches appendChildren sanitized = create_loop appendChildren sanitized 0 [] []"

text \<open>What holds of the chunks sent so far each time the loop test is reached.\<close>

definition sent_ok ::
  "(nat \<Rightarrow> 'b list \<Rightarrow> nat \<Rightarrow> 'c list outcome) \<Rightarrow> 'b list \<Rightarrow> 'b list list \<Rightarrow> bool" where
  "sent_ok sink sanitized sent =
     (\<forall>j < length sent. sent ! j = slice sanitized (50 * j) (50 * j + 50) \<and>
         50 * j < length sanitized \<and>
         (\<exists>res. result (withRetry (sink j (sent ! j))) = Resolved res))"

section \<open>The recursive tree replicator: calls, limiter items and promises\<close>

text \<open>
  One call of \<open>cloneBlocksRecursive\<close> is suspended at one of its \<open>await\<close>s or has settled:
  \<^item> \<open>Listing\<close>: at \<open>await getAllBlocks(sourceBlockId)\<close>;
  \<^item> \<open>Creating blocks sanitized i created\<close>: at the \<open>await withRetry(...)\<close> of the loop, for the
    chunk \<open>sanitized.slice(i, i + 50)\<close>;
  \<^item> \<open>Joining ids\<close>: at \<open>await Promise.all(...)\<close>, over the promises \<open>limit\<close> returned for the
    items \<open>ids\<close>;
  \<^item> \<open>Done r\<close>: the promise of the call has settled with \<open>r\<close>.
\<close>

datatype call_state =
    Listing
  | Creating "jsval obj list" "jsval obj list" nat "jsval obj list"
  | Joining "nat list"
  | Done "unit outcome"

text \<open>
  A call: its arguments, the limiter item whose function awaits it (none for the call made
  from outside), and where it stands.
\<close>

record call =
  c_source :: jsval
  c_target :: jsval
  c_waiter :: "nat option"
  c_phase :: call_state

text \<open>
  A limiter item made in \<open>created.map((newBlock, idx) => limit(async () => ...))\<close>: queued;
  started and at \<open>await cloneBlocksRecursive(src.id, newBlock.id)\<close> for the call named;
  started and returned at once (no children); settled, when the \<open>then\<close>/\<open>catch\<close> handlers have
  passed the outcome on to the promise \<open>limit\<close> returned; released, when the \<open>finally\<close>
  handler has run too.
\<close>

datatype task_state = Queued | Awaiting nat | Returned | Settled "unit outcome" | Released "unit outcome"

record task =
  t_owner :: nat
  t_src :: "jsval obj option"
  t_new :: "jsval obj"
  t_stage :: task_state

text \<open>
  The whole system: the state of the one limiter (\<open>const limit = createLimit(3)\<close>), the
  scheduled \<open>next\<close> callbacks, the calls and the items made so far (numbered from 0 in the
  order they are made), the \<open>append\<close> requests issued (parent and chunk) and the nodes the
  sink has reported created.
\<close>

record rep_sys = "nat limiter" +
  r_timers :: nat
  n_calls :: nat
  call_of :: "nat \<Rightarrow> call"
  n_tasks :: nat
  task_of :: "nat \<Rightarrow> task"
  r_appended :: "(jsval \<times> jsval obj list) list"
  r_dest :: "jsval obj list"

definition rep_init :: "jsval \<Rightarrow> jsval \<Rightarrow> rep_sys" where
  "rep_init sourceBlockId targetParent =
     \<lparr>active = 0, queue = [], r_timers = 0, n_calls = 1,
      call_of = (\<lambda>c. \<lparr>c_source = sourceBlockId, c_target = targetParent, c_waiter = None,
                        c_phase = Listing\<rparr>),
      n_tasks = 0,
      task_of = (\<lambda>t. \<lparr>t_owner = 0, t_src = None, t_new = [], t_stage = Queued\<rparr>),
      r_appended = [], r_dest = []\<rparr>"

definition set_phase :: "nat \<Rightarrow> call_state \<Rightarrow> rep_sys \<Rightarrow> rep_sys" where
  "set_phase c ph s = s\<lparr>call_of := (call_of s)(c := (call_of s c)\<lparr>c_phase := ph\<rparr>)\<rparr>"

definition set_stage :: "nat \<Rightarrow> task_state \<Rightarrow> rep_sys \<Rightarrow> rep_sys" where
  "set_stage t st s = s\<lparr>task_of := (task_of s)(t := (task_of s t)\<lparr>t_stage := st\<rparr>)\<rparr>"

text \<open>
  \<open>await Promise.all(created.map((newBlock, idx) => limit(async () => ...)))\<close>: one item per
  created node, in order, each pushed on the queue with a \<open>next\<close> scheduled; \<open>src\<close> is
  \<open>blocks[idx]\<close>, \<open>undefined\<close> beyond the end of \<open>blocks\<close>.
\<close>

definition spawn :: "nat \<Rightarrow> jsval obj list \<Rightarrow> jsval obj list \<Rightarrow> rep_sys \<Rightarrow> rep_sys" where
  "spawn c blocks created s =
     (let n = n_tasks s; k = length created
      in (set_phase c (Joining [n ..< n + k]) s)
           \<lparr>queue := queue s @ [n ..< n + k],
            r_timers := r_timers s + k,
            n_tasks := n + k,
            task_of := (\<lambda>t. if n \<le> t \<and> t < n + k
                             then \<lparr>t_owner = c,
                                   t_src = (if t - n < length blocks then Some (blocks ! (t - n)) else None),
                                   t_new = created ! (t - n),
                                   t_stage = Queued\<rparr>
                             else task_of s t)\<rparr>)"

text \<open>
  The loop test of \<open>cloneBlocksRecursive\<close> with the loop variables \<open>i\<close> and \<open>created\<close>: either
  the next chunk is sent and the call waits for the answer, or the loop is over and the
  items are submitted.
\<close>

definition continue_creating ::
  "nat \<Rightarrow> jsval obj list \<Rightarrow> jsval obj list \<Rightarrow> nat \<Rightarrow> jsval obj list \<Rightarrow> rep_sys \<Rightarrow> rep_sys" where
  "continue_creating c blocks sanitized i created s =
     (if i < length sanitized
      then (set_phase c (Creating blocks sanitized i created) s)
             \<lparr>r_appended := r_appended s @ [(c_target (call_of s c), slice sanitized i (i + 50))]\<rparr>
      else spawn c blocks created s)"

text \<open>An exception thrown by \<open>sanitizeBlocks\<close> rejects the promise of the call.\<close>

definition thrown :: "js_error \<Rightarrow> err" where
  "thrown e = Err None None (case e of TypeError \<Rightarrow> ''TypeError'' | SyntaxError \<Rightarrow> ''SyntaxError'')"

definition after_listing :: "nat \<Rightarrow> jsval obj list \<Rightarrow> rep_sys \<Rightarrow> rep_sys" where
  "after_listing c blocks s =
     (case sanitizeBlocks blocks of
        Inl e \<Rightarrow> set_phase c (Done (Rejected (thrown e))) s
      | Inr sanitized \<Rightarrow> continue_creating c blocks sanitized 0 [] s)"

text \<open>
  The function of an item, run by \<open>next\<close>:
  \<open>const src = blocks[idx]; if (src?.has_children) await cloneBlocksRecursive(src.id, newBlock.id)\<close>.
  The new call runs up to its first \<open>await\<close>.
\<close>

definition start_task :: "nat \<Rightarrow> rep_sys \<Rightarrow> rep_sys" where
  "start_task t s =
     (case t_src (task_of s t) of
        None \<Rightarrow> set_stage t Returned s
      | Some b \<Rightarrow>
          if truthy (js_prop b ''has_children'')
          then (set_stage t (Awaiting (n_calls s)) s)
                 \<lparr>n_calls := Suc (n_calls s),
                  call_of := (call_of s)(n_calls s :=
                     \<lparr>c_source = js_prop b ''id'', c_target = js_prop (t_new (task_of s t)) ''id'',
                      c_waiter = Some t, c_phase = Listing\<rparr>)\<rparr>
          else set_stage t Returned s)"

definition rep_next :: "rep_sys \<Rightarrow> rep_sys" where
  "rep_next s = (case lim_next 3 s of (s', None) \<Rightarrow> s' | (s', Some t) \<Rightarrow> start_task t s')"

text \<open>How the promise \<open>limit\<close> returned for an item has settled, if it has.\<close>

fun promise_of :: "task_state \<Rightarrow> unit outcome option" where
  "promise_of (Settled r) = Some r"
| "promise_of (Released r) = Some r"
| "promise_of st = None"

text \<open>
  What can happen, one callback at a time:
  \<^item> \<open>ListDone c r\<close>: \<open>getAllBlocks\<close> of call \<open>c\<close> settles with \<open>r\<close>;
  \<^item> \<open>AppendDone c r\<close>: the \<open>withRetry(...append...)\<close> call \<open>c\<close> awaits settles with \<open>r\<close>
    (\<open>resp.results\<close> when it resolves);
  \<^item> \<open>Timer\<close>: a scheduled \<open>next\<close> runs;
  \<^item> \<open>TaskSettle t\<close>: the function of item \<open>t\<close> has finished (at once, or because the call it
    awaited settled, with the same outcome) and the \<open>then\<close>/\<open>catch\<close> handlers pass its
    outcome on;
  \<^item> \<open>TaskRelease t\<close>: the \<open>finally\<close> handler of \<open>t\<close> runs: \<open>active--; next()\<close>;
  \<^item> \<open>JoinAll c\<close>: every promise \<open>Promise.all\<close> of call \<open>c\<close> waits for has fulfilled; the call
    returns;
  \<^item> \<open>JoinReject c t\<close>: the promise of item \<open>t\<close>, one of those \<open>Promise.all\<close> of call \<open>c\<close>
    waits for, has rejected; \<open>Promise.all\<close> rejects and the \<open>await\<close> throws.
\<close>

datatype rep_event =
    ListDone nat "jsval obj list outcome"
  | AppendDone nat "jsval obj list outcome"
  | Timer
  | TaskSettle nat
  | TaskRelease nat
  | JoinAll nat
  | JoinReject nat nat

fun rep_step :: "rep_sys \<Rightarrow> rep_event \<Rightarrow> rep_sys option" where
  "rep_step s (ListDone c r) =
     (if c < n_calls s \<and> c_phase (call_of s c) = Listing
      then Some (case r of
                   Rejected e \<Rightarrow> set_phase c (Done (Rejected e)) s
                 | Resolved blocks \<Rightarrow> after_listing c blocks s)
      else None)"
| "rep_step s (AppendDone c r) =
     (if c < n_calls s
      then (case c_phase (call_of s c) of
              Creating blocks sanitized i created \<Rightarrow>
                Some (case r of
                        Rejected e \<Rightarrow> set_phase c (Done (Rejected e)) s
                      | Resolved results \<Rightarrow>
                          continue_creating c blocks sanitized (i + 50) (created @ results)
                            (s\<lparr>r_dest := r_dest s @ results\<rparr>))
            | _ \<Rightarrow> None)
      else None)"
| "rep_step s Timer =
     (if r_timers s = 0 then None else Some (rep_next (s\<lparr>r_timers := r_timers s - 1\<rparr>)))"
| "rep_step s (TaskSettle t) =
     (if t < n_tasks s
      then (case t_stage (task_of s t) of
              Returned \<Rightarrow> Some (set_stage t (Settled (pass_on (Resolved ()))) s)
            | Awaiting c \<Rightarrow>
                (case c_phase (call_of s c) of
                   Done r \<Rightarrow> Some (set_stage t (Settled (pass_on r)) s)
                 | _ \<Rightarrow> None)
            | _ \<Rightarrow> None)
      else None)"
| "rep_step s (TaskRelease t) =
     (if t < n_tasks s
      then (case t_stage (task_of s t) of
              Settled r \<Rightarrow> Some (rep_next ((set_stage t (Released r) s)\<lparr>active := active s - 1\<rparr>))
            | _ \<Rightarrow> None)
      else None)"
| "rep_step s (JoinAll c) =
     (if c < n_calls s
      then (case c_phase (call_of s c) of
              Joining ids \<Rightarrow>
                if \<forall>t \<in> set ids. promise_of (t_stage (task_of s t)) = Some (Resolved ())
                then Some (set_phase c (Done (Resolved ())) s) else None
            | _ \<Rightarrow> None)
      else None)"
| "rep_step s (JoinReject c t) =
     (if c < n_calls s
      then (case c_phase (call_of s c) of
              Joining ids \<Rightarrow>
                (case promise_of (t_stage (task_of s t)) of
                   Some (Rejected e) \<Rightarrow>
                     if t \<in> set ids then Some (set_phase c (Done (Rejected e)) s) else None
                 | _ \<Rightarrow> None)
            | _ \<Rightarrow> None)
      else None)"

fun rep_run :: "rep_sys \<Rightarrow> rep_event list \<Rightarrow> rep_sys option" where
  "rep_run s [] = Some s"
| "rep_run s (e # es) = (case rep_step s e of None \<Rightarrow> None | Some s' \<Rightarrow> rep_run s' es)"

text \<open>
  \<open>child_of s c' c\<close>: call \<open>c'\<close> was made by an item that call \<open>c\<close> submitted;
  \<open>descendant s c' c\<close>: \<open>c'\<close> is a subtree replication spawned by \<open>c\<close>, directly or through
  other calls.
\<close>

definition child_of :: "rep_sys \<Rightarrow> nat \<Rightarrow> nat \<Rightarrow> bool" where
  "child_of s c' c =
     (c' < n_calls s \<and>
      (case c_waiter (call_of s c') of None \<Rightarrow> False | Some t \<Rightarrow> t_owner (task_of s t) = c))"

inductive descendant :: "rep_sys \<Rightarrow> nat \<Rightarrow> nat \<Rightarrow> bool" for s :: rep_sys where
  direct: "child_of s c' c \<Longrightarrow> descendant s c' c"
| deeper: "child_of s c' c'' \<Longrightarrow> descendant s c'' c \<Longrightarrow> descendant s c' c"

text \<open>
  The promise reactions: callbacks the engine runs as soon as the promise they wait for
  has settled, before any timer.
\<close>

fun reaction :: "rep_event \<Rightarrow> bool" where
  "reaction (TaskSettle t) = True"
| "reaction (JoinAll c) = True"
| "reaction (JoinReject c t) = True"
| "reaction e = False"

definition root_rejected :: "rep_sys \<Rightarrow> bool" where
  "root_rejected s = (\<exists>e. c_phase (call_of s 0) = Done (Rejected e))"

text \<open>
  \<open>rejects_eventually s\<close>: the promise of the top-level call has rejected, or some promise
  reaction is pending and, whichever pending reactions run, it comes to reject.
\<close>

inductive rejects_eventually :: "rep_sys \<Rightarrow> bool" where
  now: "root_rejected s \<Longrightarrow> rejects_eventually s"
| later: "\<exists>e. reaction e \<and> rep_step s e \<noteq> None \<Longrightarrow>
          (\<And>e s'. reaction e \<Longrightarrow> rep_step s e = Some s' \<Longrightarrow> rejects_eventually s') \<Longrightarrow>
          rejects_eventually s"

text \<open>
  What holds in every state the replicator reaches. Calls: the top-level call is call 0 and
  the only one nobody awaits; the item awaiting a call was made earlier by an earlier call,
  and it is still at its \<open>await\<close> or has settled the way the call did.
\<close>

definition inv_calls :: "rep_sys \<Rightarrow> bool" where
  "inv_calls s =
     (0 < n_calls s \<and> c_waiter (call_of s 0) = None \<and>
      (\<forall>c < n_calls s. c_waiter (call_of s c) = None \<longrightarrow> c = 0) \<and>
      (\<forall>c < n_calls s. \<forall>t. c_waiter (call_of s c) = Some t \<longrightarrow>
         t < n_tasks s \<and> t_owner (task_of s t) < c \<and>
         (t_stage (task_of s t) = Awaiting c \<or>
          (\<exists>r. c_phase (call_of s c) = Done r \<and>
               promise_of (t_stage (task_of s t)) = Some r))))"

text \<open>
  Items: the call that submitted an item is at its \<open>Promise.all\<close> over a list holding the
  item, or has settled; and it has fulfilled only if the item's promise has.
\<close>

definition inv_tasks :: "rep_sys \<Rightarrow> bool" where
  "inv_tasks s =
     (\<forall>t < n_tasks s.
        t_owner (task_of s t) < n_calls s \<and>
        c_phase (call_of s (t_owner (task_of s t))) \<noteq> Listing \<and>
        (\<forall>b sn i cr. c_phase (call_of s (t_owner (task_of s t))) \<noteq> Creating b sn i cr) \<and>
        (\<forall>ids. c_phase (call_of s (t_owner (task_of s t))) = Joining ids \<longrightarrow> t \<in> set ids) \<and>
        (c_phase (call_of s (t_owner (task_of s t))) = Done (Resolved ()) \<longrightarrow>
           promise_of (t_stage (task_of s t)) = Some (Resolved ())))"

text \<open>The queue holds each waiting item once, and only items not yet started.\<close>

definition inv_queue :: "rep_sys \<Rightarrow> bool" where
  "inv_queue s =
     (distinct (queue s) \<and>
      (\<forall>t \<in> set (queue s). t < n_tasks s \<and> t_stage (task_of s t) = Queued))"

definition rep_inv :: "rep_sys \<Rightarrow> bool" where
  "rep_inv s = (inv_calls s \<and> inv_tasks s \<and> inv_queue s)"

text \<open>The promise reactions that can still run: one per item not settled and per call not settled.\<close>

definition open_work :: "rep_sys \<Rightarrow> nat" where
  "open_work s =
     card {t. t < n_tasks s \<and> promise_of (t_stage (task_of s t)) = None} +
     card {c. c < n_calls s \<and> (\<forall>r. c_phase (call_of s c) \<noteq> Done r)}"

text \<open>A call that is still before its \<open>Promise.all\<close>: listing or creating.\<close>

definition pre_join :: "rep_sys \<Rightarrow> nat \<Rightarrow> bool" where
  "pre_join s c = (c_phase (call_of s c) = Listing \<or> (\<exists>b sn i cr. c_phase (call_of s c) = Creating b sn i cr))"

section \<open>Properties of the retrying call executor\<close>

declare withRetry_loop.simps [simp del]

lemma loop_Resolved:
  "fn n = Resolved v \<Longrightarrow>
   withRetry_loop fn a w n sl = \<lparr>result = Resolved v, calls = Suc n, waits = sl\<rparr>"
  by (subst withRetry_loop.simps) simp

lemma loop_stop:
  "fn n = Rejected e \<Longrightarrow> 4 \<le> a \<or> fatal e \<Longrightarrow>
   withRetry_loop fn a w n sl = \<lparr>result = Rejected e, calls = Suc n, waits = sl\<rparr>"
  by (subst withRetry_loop.simps) auto

lemma loop_retry:
  "fn n = Rejected e \<Longrightarrow> a < 4 \<Longrightarrow> \<not> fatal e \<Longrightarrow>
   withRetry_loop fn a w n sl =
     withRetry_loop fn (Suc a) (min (w * 2) 5000) (Suc n) (sl @ [w])"
  by (subst withRetry_loop.simps) auto

lemma loop_induct [case_names resolved stop retry]:
  fixes w :: nat
  assumes "\<And>fn a (w::nat) n sl v. fn n = Resolved v \<Longrightarrow> P fn a w n sl"
    and "\<And>fn a (w::nat) n sl e. fn n = Rejected e \<Longrightarrow> 4 \<le> a \<or> fatal e \<Longrightarrow> P fn a w n sl"
    and "\<And>fn a (w::nat) n sl e. fn n = Rejected e \<Longrightarrow> a < 4 \<Longrightarrow> \<not> fatal e \<Longrightarrow>
           P fn (Suc a) (min (w * 2) 5000) (Suc n) (sl @ [w]) \<Longrightarrow> P fn a w n sl"
  shows "P fn a w n sl"
proof (induction fn a w n sl rule: withRetry_loop.induct)
  case (1 fn a w n sl)
  show ?case
  proof (cases "fn n")
    case (Resolved v) then show ?thesis by (rule assms(1))
  next
    case (Rejected e)
    show ?thesis
    proof (cases "4 \<le> a \<or> fatal e")
      case True with Rejected show ?thesis by (rule assms(2))
    next
      case False
      with Rejected 1 have "P fn (Suc a) (min (w * 2) 5000) (Suc n) (sl @ [w])"
        by auto
      with False Rejected show ?thesis by (intro assms(3)[of fn n e a w sl]) auto
    qed
  qed
qed

lemma loop_calls_gt: "n < calls (withRetry_loop fn a w n sl)"
  by (induction fn a w n sl rule: loop_induct) (simp_all add: loop_Resolved loop_stop loop_retry)

lemma loop_calls_le: "a \<le> 4 \<Longrightarrow> calls (withRetry_loop fn a w n sl) + a \<le> n + 5"
  by (induction fn a w n sl rule: loop_induct) (simp_all add: loop_Resolved loop_stop loop_retry)

lemma loop_result_last:
  "result (withRetry_loop fn a w n sl) = fn (calls (withRetry_loop fn a w n sl) - 1)"
  by (induction fn a w n sl rule: loop_induct) (simp_all add: loop_Resolved loop_stop loop_retry)

lemma loop_earlier_failed:
  "n \<le> j \<Longrightarrow> Suc j < calls (withRetry_loop fn a w n sl) \<Longrightarrow>
   \<exists>e. fn j = Rejected e \<and> \<not> fatal e"
proof (induction fn a w n sl rule: loop_induct)
  case (retry fn a w n sl e)
  then show ?case by (cases "j = n") (simp_all add: loop_retry)
qed (simp_all add: loop_Resolved loop_stop)

lemma loop_exhausted:
  "a \<le> 4 \<Longrightarrow> result (withRetry_loop fn a w n sl) = Rejected e \<Longrightarrow> \<not> fatal e \<Longrightarrow>
   calls (withRetry_loop fn a w n sl) + a = n + 5"
  by (induction fn a w n sl rule: loop_induct) (auto simp add: loop_Resolved loop_stop loop_retry)

lemma min_double: "min (min (w * 2) 5000 * 2 ^ i) (5000::nat) = min (w * 2 ^ Suc i) 5000"
proof (cases "w * 2 \<le> 5000")
  case True then show ?thesis by (simp add: min_def mult.assoc)
next
  case False
  then have a: "5000 \<le> w * 2" by simp
  have "w * 2 * 1 \<le> w * 2 * 2 ^ i" by (rule mult_le_mono2) simp
  with a have "5000 \<le> w * 2 * 2 ^ i" by linarith
  then have r: "min (w * 2 ^ Suc i) 5000 = 5000" by (simp add: mult.assoc)
  have "(5000::nat) * 1 \<le> 5000 * 2 ^ i" by (rule mult_le_mono2) simp
  then have "min (5000 * 2 ^ i) (5000::nat) = 5000" by simp
  moreover from a have "min (w * 2) 5000 = 5000" by simp
  ultimately show ?thesis using r by simp
qed

lemma loop_waits:
  "w \<le> 5000 \<Longrightarrow> waits (withRetry_loop fn a w n sl) =
     sl @ map (\<lambda>i. min (w * 2 ^ i) 5000) [0 ..< calls (withRetry_loop fn a w n sl) - Suc n]"
proof (induction fn a w n sl rule: loop_induct)
  case (retry fn a w n sl e)
  let ?r = "withRetry_loop fn (Suc a) (min (w * 2) 5000) (Suc n) (sl @ [w])"
  have gt: "Suc n < calls ?r" by (rule loop_calls_gt)
  then obtain k where k: "calls ?r - Suc n = Suc k" "calls ?r - Suc (Suc n) = k"
    by (metis Suc_diff_Suc)
  have "[0..<Suc k] = 0 # map Suc [0..<k]"
    by (simp add: upt_conv_Cons map_Suc_upt del: upt_Suc)
  then show ?case using retry k
    by (simp add: loop_retry min_double comp_def del: upt_Suc power_Suc)
qed (simp_all add: loop_Resolved loop_stop)




lemma loop_succeeds_after:
  "a + K \<le> 4 \<Longrightarrow> \<forall>j<K. \<exists>e. fn (n + j) = Rejected e \<and> \<not> fatal e \<Longrightarrow>
   fn (n + K) = Resolved v \<Longrightarrow>
   result (withRetry_loop fn a w n sl) = Resolved v \<and>
   calls (withRetry_loop fn a w n sl) = Suc (n + K)"
proof (induction K arbitrary: a w n sl)
  case 0
  then show ?case by (simp add: loop_Resolved)
next
  case (Suc K)
  from Suc.prems(2) obtain e where e: "fn n = Rejected e" "\<not> fatal e"
    by (metis add.right_neutral zero_less_Suc)
  with Suc.prems have eq: "withRetry_loop fn a w n sl =
      withRetry_loop fn (Suc a) (min (w * 2) 5000) (Suc n) (sl @ [w])"
    by (simp add: loop_retry)
  have "\<forall>j<K. \<exists>e. fn (Suc n + j) = Rejected e \<and> \<not> fatal e"
  proof (intro allI impI)
    fix j assume "j < K"
    then have "Suc j < Suc K" by simp
    with Suc.prems(2) have "\<exists>e. fn (n + Suc j) = Rejected e \<and> \<not> fatal e" by blast
    then show "\<exists>e. fn (Suc n + j) = Rejected e \<and> \<not> fatal e" by simp
  qed
  moreover from Suc.prems have "Suc a + K \<le> 4" "fn (Suc n + K) = Resolved v" by simp_all
  ultimately show ?case using eq Suc.IH [of "Suc a" "Suc n" "min (w * 2) 5000" "sl @ [w]"]
    by simp
qed






lemma backoff_table:
  "k \<le> 4 \<Longrightarrow> map (\<lambda>i. min (500 * 2 ^ i) (5000::nat)) [0..<k] = take k [500, 1000, 2000, 4000]"
proof -
  assume "k \<le> 4"
  then consider "k = 0" | "k = 1" | "k = 2" | "k = 3" | "k = 4" by linarith
  then show ?thesis
    by cases (simp_all add: upt_conv_Cons del: upt_Suc)
qed

lemma withRetry_calls_le: "calls (withRetry fn) \<le> 5"
  using loop_calls_le [of 0 fn 500 0 "[]"] by (simp add: withRetry_def)

lemma withRetry_calls_pos: "0 < calls (withRetry fn)"
  using loop_calls_gt [of 0 fn 0 500 "[]"] by (simp add: withRetry_def)

lemma withRetry_waits: "waits (withRetry fn) = take (calls (withRetry fn) - 1) [500, 1000, 2000, 4000]"
proof -
  have "calls (withRetry fn) - 1 \<le> 4" using withRetry_calls_le [of fn] by simp
  then show ?thesis
    using loop_waits [of 500 fn 0 0 "[]"] by (simp add: withRetry_def backoff_table)
qed

lemma withRetry_result_last: "result (withRetry fn) = fn (calls (withRetry fn) - 1)"
  unfolding withRetry_def by (rule loop_result_last)

lemma withRetry_earlier_failed:
  "Suc j < calls (withRetry fn) \<Longrightarrow> \<exists>e. fn j = Rejected e \<and> \<not> fatal e"
  unfolding withRetry_def by (rule loop_earlier_failed) simp_all

lemma withRetry_exhausted:
  "result (withRetry fn) = Rejected e \<Longrightarrow> \<not> fatal e \<Longrightarrow> calls (withRetry fn) = 5"
  using loop_exhausted [of 0 fn 500 0 "[]" e] by (simp add: withRetry_def)

lemma take_backoff_sorted: "sorted (take k [500, 1000, 2000, 4000::nat])"
  by (rule sorted_wrt_take) simp

lemma take_backoff_nth:
  "i < length (take k [500, 1000, 2000, 4000::nat]) \<Longrightarrow>
   take k [500, 1000, 2000, 4000::nat] ! i = 500 * 2 ^ i \<and> take k [500, 1000, 2000, 4000::nat] ! i \<le> 5000"
proof -
  assume "i < length (take k [500, 1000, 2000, 4000::nat])"
  then have i: "i < k" "i < 4" by simp_all
  then consider "i = 0" | "i = 1" | "i = 2" | "i = 3" by linarith
  then show ?thesis using i by cases simp_all
qed

text \<open>
  C3. For an operation all of whose failures are retryable (none is classified fatal by the
  executor), \<open>withRetry\<close> invokes it at most 5 times; when it rejects it has made exactly 5
  invocations and the error is that of the fifth, the last one. The delays slept before the
  retries are the first \<open>calls - 1\<close> entries of 500, 1000, 2000, 4000: the first is 500, each
  is the double of the one before capped at 5000, none exceeds 5000, and the sequence never
  decreases.
\<close>

theorem withRetry_backoff:
  fixes fn :: "nat \<Rightarrow> 'a outcome"
  assumes retryable: "\<forall>k e. fn k = Rejected e \<longrightarrow> \<not> fatal e"
  shows "calls (withRetry fn) \<le> 5 \<and>
         (\<forall>e. result (withRetry fn) = Rejected e \<longrightarrow> calls (withRetry fn) = 5 \<and> fn 4 = Rejected e) \<and>
         ((\<forall>k. \<exists>e. fn k = Rejected e) \<longrightarrow>
            result (withRetry fn) = fn 4 \<and> calls (withRetry fn) = 5 \<and>
            waits (withRetry fn) = [500, 1000, 2000, 4000]) \<and>
         length (waits (withRetry fn)) = calls (withRetry fn) - 1 \<and>
         waits (withRetry fn) = take (calls (withRetry fn) - 1) [500, 1000, 2000, 4000] \<and>
         (\<forall>i < length (waits (withRetry fn)).
            waits (withRetry fn) ! i = min (500 * 2 ^ i) 5000 \<and> waits (withRetry fn) ! i \<le> 5000) \<and>
         sorted (waits (withRetry fn))"
proof -
  let ?r = "withRetry fn"
  have le: "calls ?r \<le> 5" by (rule withRetry_calls_le)
  have rej: "calls ?r = 5 \<and> fn 4 = Rejected e" if "result ?r = Rejected e" for e
  proof -
    from that have "fn (calls ?r - 1) = Rejected e" by (simp add: withRetry_result_last)
    with retryable have "\<not> fatal e" by blast
    with that have "calls ?r = 5" by (rule withRetry_exhausted)
    with that show ?thesis by (simp add: withRetry_result_last)
  qed
  have w: "waits ?r = take (calls ?r - 1) [500, 1000, 2000, 4000]" by (rule withRetry_waits)
  have len: "length (waits ?r) = calls ?r - 1" using le by (simp add: w)
  have allfail: "result ?r = fn 4 \<and> calls ?r = 5 \<and> waits ?r = [500, 1000, 2000, 4000]"
    if "\<forall>k. \<exists>e. fn k = Rejected e"
  proof -
    from that obtain e where "fn (calls ?r - 1) = Rejected e" by blast
    then have "result ?r = Rejected e" by (simp add: withRetry_result_last)
    then have "calls ?r = 5 \<and> fn 4 = Rejected e" by (rule rej)
    then show ?thesis using w by (simp add: withRetry_result_last)
  qed
  have nth: "waits ?r ! i = min (500 * 2 ^ i) 5000 \<and> waits ?r ! i \<le> 5000" if "i < length (waits ?r)" for i
    using that take_backoff_nth [of i "calls ?r - 1"] unfolding w by (simp add: min_def)
  have "sorted (waits ?r)" unfolding w by (rule take_backoff_sorted)
  with le rej allfail len w nth show ?thesis by blast
qed

theorem withRetry_backoff_witness:
  "calls (withRetry (\<lambda>k. Rejected (Err (Some 502) None ''bad gateway'') :: unit outcome)) = 5 \<and>
   result (withRetry (\<lambda>k. Rejected (Err (Some 502) None ''bad gateway'') :: unit outcome))
     = Rejected (Err (Some 502) None ''bad gateway'') \<and>
   waits (withRetry (\<lambda>k. Rejected (Err (Some 502) None ''bad gateway'') :: unit outcome))
     = [500, 1000, 2000, 4000]"
  using withRetry_backoff [of "\<lambda>k. Rejected (Err (Some 502) None ''bad gateway'') :: unit outcome"]
  by (simp add: fatal_def err_status_def js_or_def truthy_num_def)

text \<open>
  C4. If the operation fails \<open>K \<le> 4\<close> times with retryable errors and then succeeds with \<open>v\<close>,
  \<open>withRetry\<close> resolves with \<open>v\<close> itself after exactly \<open>K + 1\<close> invocations. Every invocation
  before the last one of a run failed, so the value returned is that of the first succeeding
  attempt; and for an operation whose failures are all retryable, the run ends only at a
  success or when all 5 attempts are used up.
\<close>

theorem withRetry_success_after_failures:
  fixes fn :: "nat \<Rightarrow> 'a outcome"
  shows "(\<forall>K v. K \<le> 4 \<and> (\<forall>j<K. \<exists>e. fn j = Rejected e \<and> \<not> fatal e) \<and> fn K = Resolved v \<longrightarrow>
            result (withRetry fn) = Resolved v \<and> calls (withRetry fn) = K + 1) \<and>
         (\<forall>j. Suc j < calls (withRetry fn) \<longrightarrow> (\<exists>e. fn j = Rejected e)) \<and>
         ((\<forall>k e. fn k = Rejected e \<longrightarrow> \<not> fatal e) \<longrightarrow>
            (\<exists>v. fn (calls (withRetry fn) - 1) = Resolved v \<and> result (withRetry fn) = Resolved v) \<or>
            calls (withRetry fn) = 5)"
proof -
  let ?r = "withRetry fn"
  have a: "\<forall>K v. K \<le> 4 \<and> (\<forall>j<K. \<exists>e. fn j = Rejected e \<and> \<not> fatal e) \<and> fn K = Resolved v \<longrightarrow>
            result ?r = Resolved v \<and> calls ?r = K + 1"
  proof (intro allI impI)
    fix K v
    assume "K \<le> 4 \<and> (\<forall>j<K. \<exists>e. fn j = Rejected e \<and> \<not> fatal e) \<and> fn K = Resolved v"
    then show "result ?r = Resolved v \<and> calls ?r = K + 1"
      using loop_succeeds_after [of 0 K fn 0 v 500 "[]"] by (simp add: withRetry_def)
  qed
  have b: "\<forall>j. Suc j < calls ?r \<longrightarrow> (\<exists>e. fn j = Rejected e)"
    using withRetry_earlier_failed by blast
  have c: "(\<exists>v. fn (calls ?r - 1) = Resolved v \<and> result ?r = Resolved v) \<or> calls ?r = 5"
    if retryable: "\<forall>k e. fn k = Rejected e \<longrightarrow> \<not> fatal e"
  proof (cases "result ?r")
    case (Resolved v)
    then have "fn (calls ?r - 1) = Resolved v" using withRetry_result_last [of fn] by simp
    with Resolved show ?thesis by blast
  next
    case (Rejected e)
    then have "fn (calls ?r - 1) = Rejected e" by (simp add: withRetry_result_last)
    with retryable have "\<not> fatal e" by blast
    with Rejected have "calls ?r = 5" by (rule withRetry_exhausted)
    then show ?thesis ..
  qed
  from a b c show ?thesis by blast
qed

theorem withRetry_success_after_failures_witness:
  "result (withRetry (\<lambda>k. if k < 4 then Rejected (Err (Some 429) None ''rate limited'') else Resolved ''ok''))
     = Resolved ''ok'' \<and>
   calls (withRetry (\<lambda>k. if k < 4 then Rejected (Err (Some 429) None ''rate limited'') else Resolved ''ok'')) = 5"
  using withRetry_success_after_failures
          [of "\<lambda>k. if k < 4 then Rejected (Err (Some 429) None ''rate limited'') else Resolved ''ok''",
           THEN conjunct1, rule_format, of 4 "''ok''"]
  by (simp add: fatal_def err_status_def js_or_def truthy_num_def)

section \<open>Properties of the bounded concurrency limiter\<close>

lemma lim_next_cases:
  "lim_next c L = (L', r) \<Longrightarrow>
   (r = None \<and> L' = L \<and> (c \<le> active L \<or> queue L = [])) \<or>
   (\<exists>t rest. r = Some t \<and> active L < c \<and> queue L = t # rest \<and>
       L' = L\<lparr>queue := rest, active := active L + 1\<rparr>)"
  by (auto simp: lim_next_def split: if_splits list.splits)

lemma run_next_cases:
  "(run_next c s = s \<and> (c \<le> active s \<or> queue s = [])) \<or>
   (\<exists>t rest. active s < c \<and> queue s = t # rest \<and>
      run_next c s = s\<lparr>queue := rest, active := active s + 1,
                         running := running s @ [t], started := started s @ [t]\<rparr>)"
  by (auto simp: run_next_def lim_next_def split: list.splits)

lemma length_remove1_mem: "t \<in> set xs \<Longrightarrow> int (length (remove1 t xs)) = int (length xs) - 1"
proof -
  assume t: "t \<in> set xs"
  then have "0 < length xs" by (rule length_pos_if_in_set)
  moreover from t have "length (remove1 t xs) = length xs - 1" by (simp add: length_remove1)
  ultimately show ?thesis by linarith
qed

lemma lim_inv_init: "lim_inv c lim_init"
  by (simp add: lim_inv_def lim_init_def)

lemma lim_inv_submit:
  "lim_inv c s \<Longrightarrow> lim_step c s (Submit t) = Some s' \<Longrightarrow> lim_inv c s'"
  by (auto simp: lim_inv_def split: if_splits)

lemma lim_inv_settle:
  "lim_inv c s \<Longrightarrow> lim_step c s (Settle t r) = Some s' \<Longrightarrow> lim_inv c s'"
  by (auto simp: lim_inv_def length_remove1_mem pass_on_def split: if_splits outcome.splits)

lemma lim_inv_tick:
  "lim_inv c s \<Longrightarrow> lim_step c s Tick = Some s' \<Longrightarrow> lim_inv c s'"
  using run_next_cases [of c "s\<lparr>timers := timers s - 1\<rparr>"]
  by (auto simp: lim_inv_def split: if_splits)

lemma lim_inv_release:
  assumes inv: "lim_inv c s" and step: "lim_step c s (Release t) = Some s'"
  shows "lim_inv c s'"
proof -
  let ?s = "s\<lparr>releasing := remove1 t (releasing s), active := active s - 1\<rparr>"
  from step have t: "t \<in> set (releasing s)" and s': "s' = run_next c ?s"
    by (auto split: if_splits)
  from t have "0 < length (releasing s)" by (rule length_pos_if_in_set)
  then have "1 \<le> int (length (running s)) + int (length (releasing s))" by linarith
  moreover from inv have "active s = int (length (running s)) + int (length (releasing s))"
    by (simp add: lim_inv_def)
  ultimately have pos: "1 \<le> active s" by simp
  show ?thesis
    using run_next_cases [of c ?s] inv t pos unfolding s'
    by (auto simp: lim_inv_def length_remove1_mem)
qed

lemma lim_inv_step: "lim_inv c s \<Longrightarrow> lim_step c s e = Some s' \<Longrightarrow> lim_inv c s'"
  by (cases e) (blast intro: lim_inv_submit lim_inv_tick lim_inv_settle lim_inv_release)+

lemma lim_inv_run: "lim_inv c s \<Longrightarrow> lim_run c s evs = Some s' \<Longrightarrow> lim_inv c s'"
proof (induction evs arbitrary: s)
  case Nil then show ?case by simp
next
  case (Cons e evs)
  from Cons.prems(2) obtain s1 where s1: "lim_step c s e = Some s1" "lim_run c s1 evs = Some s'"
    by (auto split: option.splits)
  from Cons.prems(1) s1(1) have "lim_inv c s1" by (rule lim_inv_step)
  then show ?case using s1(2) by (rule Cons.IH)
qed

lemma lim_inv_reachable: "lim_run c lim_init evs = Some s \<Longrightarrow> lim_inv c s"
  using lim_inv_init by (rule lim_inv_run)







text \<open>
  Without a ready task nothing is promised: a limiter whose one running task is not ready
  has no callback to run, and the task stays unsettled.
\<close>

lemma settles_eventually_needs_ready:
  "\<not> settles_eventually (\<lambda>s t. False) 1
       (\<lparr>active = 1, queue = [], timers = 0, running = [0], releasing = [],
         settled = Map.empty, submitted = [0], started = [0]\<rparr> :: (nat, unit) lim_sys)"
proof
  let ?s = "\<lparr>active = 1, queue = [], timers = 0, running = [0], releasing = [],
             settled = Map.empty, submitted = [0], started = [0]\<rparr> :: (nat, unit) lim_sys"
  assume "settles_eventually (\<lambda>s t. False) 1 ?s"
  then show False
  proof cases
    case now
    then show False by (simp add: all_settled_def)
  next
    case later
    then obtain e where e: "may_run (\<lambda>s t. False) ?s e" "lim_step 1 ?s e \<noteq> None" by blast
    then show False by (cases e) simp_all
  qed
qed




lemma before_prefix:
  assumes d: "distinct (xs @ ys)" and b: "before (xs @ ys) a b" and m: "b \<in> set xs"
  shows "before xs a b"
proof -
  from b obtain i j where ij: "i < j" "j < length (xs @ ys)" "(xs @ ys) ! i = a" "(xs @ ys) ! j = b"
    by (auto simp: before_def)
  from m obtain k where k: "k < length xs" "xs ! k = b" by (auto simp: in_set_conv_nth)
  then have "(xs @ ys) ! k = b" "k < length (xs @ ys)" by (simp_all add: nth_append)
  with d ij(2,4) have "j = k" by (metis nth_eq_iff_index_eq)
  with k ij have "i < j" "j < length xs" "xs ! i = a" "xs ! j = b" by (simp_all add: nth_append)
  then show ?thesis unfolding before_def by blast
qed

text \<open>
  C8. Tasks start in submission order: in every state reached, the start log followed by the
  pending queue is the submission log, so whenever \<open>A\<close> was submitted before \<open>B\<close> and \<open>B\<close> has
  started, \<open>A\<close> started before \<open>B\<close>. The queue is never reordered.
\<close>

theorem limiter_fifo:
  fixes s :: "('i, 'a) lim_sys"
  assumes "lim_run N lim_init evs = Some s"
  shows "started s @ queue s = submitted s \<and>
         (\<forall>A B. before (submitted s) A B \<and> B \<in> set (started s) \<longrightarrow> before (started s) A B)"
proof -
  from assms have inv: "lim_inv N s" by (rule lim_inv_reachable)
  then have sub: "started s @ queue s = submitted s" and d: "distinct (started s @ queue s)"
    by (simp_all add: lim_inv_def)
  have "before (started s) A B" if "before (submitted s) A B" "B \<in> set (started s)" for A B
    using d that unfolding sub [symmetric] by (rule before_prefix)
  with sub show ?thesis by blast
qed

theorem limiter_fifo_witness:
  "lim_run 1 (lim_init :: (nat, unit) lim_sys)
       [Submit 7, Submit 4, Tick, Tick, Settle 7 (Resolved ()), Release 7] \<noteq> None \<and>
   before (started (the (lim_run 1 (lim_init :: (nat, unit) lim_sys)
       [Submit 7, Submit 4, Tick, Tick, Settle 7 (Resolved ()), Release 7]))) 7 4"
proof -
  let ?evs = "[Submit 7, Submit 4, Tick, Tick, Settle 7 (Resolved ()), Release 7] :: (nat, unit) lim_event list"
  obtain s where r: "lim_run 1 (lim_init :: (nat, unit) lim_sys) ?evs = Some s"
     and sub: "submitted s = [7, 4]" and st: "started s = [7, 4]"
    by (simp add: lim_init_def run_next_def lim_next_def)
  have "before (submitted s) 7 4" unfolding sub before_def
    by (rule exI [of _ 0], rule exI [of _ 1]) simp
  moreover have "4 \<in> set (started s)" by (simp add: st)
  ultimately have "before (started s) 7 4" using limiter_fifo [OF r] by blast
  with r show ?thesis by simp
qed

lemma run_next_release:
  assumes "a < c"
  shows "run_next c (s\<lparr>active := a\<rparr>) =
     (case queue s of
        [] \<Rightarrow> s\<lparr>active := a\<rparr>
      | q # rest \<Rightarrow> s\<lparr>active := a + 1, queue := rest, running := running s @ [q],
                       started := started s @ [q]\<rparr>)"
  using assms by (simp add: run_next_def lim_next_def split: list.splits)

text \<open>
  C9. In every state reached: when a running task's promise settles with \<open>r\<close>, a value or
  an error, the promise returned by the limiter settles with the same \<open>r\<close>, and the task's
  \<open>finally\<close> handler is pending, whichever way it settled; and when that handler runs,
  \<open>active\<close> is decremented and \<open>next\<close> promotes the head of the queue, if there is one, which
  then starts at once (so \<open>active\<close> is back at its value); with an empty queue \<open>active\<close> ends
  one lower.
\<close>

theorem limiter_release_on_all_paths:
  fixes s :: "('i, 'a) lim_sys"
  assumes "lim_run N lim_init evs = Some s"
  shows "(\<forall>t r. t \<in> set (running s) \<longrightarrow>
            (\<exists>s1. lim_step N s (Settle t r) = Some s1 \<and> settled s1 t = Some r \<and>
                  t \<in> set (releasing s1) \<and> active s1 = active s \<and> queue s1 = queue s)) \<and>
         (\<forall>t. t \<in> set (releasing s) \<longrightarrow>
            (\<exists>s2. lim_step N s (Release t) = Some s2 \<and>
                  (case queue s of
                     [] \<Rightarrow> active s2 = active s - 1 \<and> started s2 = started s
                   | q # rest \<Rightarrow> active s2 = active s \<and> queue s2 = rest \<and>
                       started s2 = started s @ [q] \<and> q \<in> set (running s2))))"
proof (intro conjI allI impI)
  fix t and r :: "'a outcome"
  assume "t \<in> set (running s)"
  then show "\<exists>s1. lim_step N s (Settle t r) = Some s1 \<and> settled s1 t = Some r \<and>
                  t \<in> set (releasing s1) \<and> active s1 = active s \<and> queue s1 = queue s"
    by (simp add: pass_on_def split: outcome.splits)
next
  fix t
  assume t: "t \<in> set (releasing s)"
  from assms have inv: "lim_inv N s" by (rule lim_inv_reachable)
  from t have "0 < length (releasing s)" by (rule length_pos_if_in_set)
  then have "1 \<le> int (length (running s)) + int (length (releasing s))" by linarith
  moreover from inv have "active s = int (length (running s)) + int (length (releasing s))"
    and "active s \<le> N \<or> active s = 0"
    unfolding lim_inv_def by blast+
  ultimately have lt: "active s - 1 < N" by linarith
  let ?s = "s\<lparr>releasing := remove1 t (releasing s)\<rparr>"
  have "lim_step N s (Release t) = Some (run_next N (?s\<lparr>active := active s - 1\<rparr>))"
    using t by simp
  moreover have "run_next N (?s\<lparr>active := active s - 1\<rparr>) =
     (case queue ?s of
        [] \<Rightarrow> ?s\<lparr>active := active s - 1\<rparr>
      | q # rest \<Rightarrow> ?s\<lparr>active := active s - 1 + 1, queue := rest, running := running ?s @ [q],
                       started := started ?s @ [q]\<rparr>)"
    using lt by (rule run_next_release)
  ultimately show "\<exists>s2. lim_step N s (Release t) = Some s2 \<and>
                  (case queue s of
                     [] \<Rightarrow> active s2 = active s - 1 \<and> started s2 = started s
                   | q # rest \<Rightarrow> active s2 = active s \<and> queue s2 = rest \<and>
                       started s2 = started s @ [q] \<and> q \<in> set (running s2))"
    by (cases "queue s") simp_all
qed


theorem limiter_release_on_all_paths_witness:
  "(\<exists>s1. lim_step 1 (the (lim_run 1 (lim_init :: (nat, unit) lim_sys) [Submit 0, Submit 1, Tick, Tick]))
            (Settle 0 (Rejected (Err (Some 404) None ''gone''))) = Some s1 \<and>
         settled s1 0 = Some (Rejected (Err (Some 404) None ''gone''))) \<and>
   (\<exists>s2. lim_step 1 (the (lim_run 1 (lim_init :: (nat, unit) lim_sys)
              [Submit 0, Submit 1, Tick, Tick, Settle 0 (Rejected (Err (Some 404) None ''gone''))]))
            (Release 0) = Some s2 \<and>
         active s2 = 1 \<and> 1 \<in> set (running s2))"
proof -
  let ?e = "Err (Some 404) None ''gone''"
  obtain s where r: "lim_run 1 (lim_init :: (nat, unit) lim_sys) [Submit 0, Submit 1, Tick, Tick] = Some s"
    and run: "0 \<in> set (running s)"
    by (simp add: lim_init_def run_next_def lim_next_def)
  obtain s' where r': "lim_run 1 (lim_init :: (nat, unit) lim_sys)
       [Submit 0, Submit 1, Tick, Tick, Settle 0 (Rejected ?e)] = Some s'"
    and rel: "0 \<in> set (releasing s')" and q: "queue s' = [1]" and a: "active s' = 1"
    by (simp add: lim_init_def run_next_def lim_next_def)
  from limiter_release_on_all_paths [OF r, THEN conjunct1, rule_format, OF run, of "Rejected ?e"]
  have "\<exists>s1. lim_step 1 s (Settle 0 (Rejected ?e)) = Some s1 \<and> settled s1 0 = Some (Rejected ?e)"
    by blast
  moreover
  from limiter_release_on_all_paths [OF r', THEN conjunct2, rule_format, OF rel]
  have "\<exists>s2. lim_step 1 s' (Release 0) = Some s2 \<and> active s2 = 1 \<and> 1 \<in> set (running s2)"
    using rel unfolding q a by auto
  ultimately show ?thesis using r r' by simp
qed

section \<open>Properties of the signed action links\<close>

text \<open>
  What the builder signs and what the backend checks, for the parameters the installer
  passes (\<open>taskId\<close>, \<open>tasksDbId\<close>, \<open>calendarDbId\<close>): the builder looks \<open>ts\<close> and \<open>nonce\<close> up
  in \<open>params\<close>, where they are absent, and signs the payload with both fields empty; the
  backend rebuilds the payload with the \<open>ts\<close> and \<open>nonce\<close> of the link. The two payloads
  differ in length, so the link is accepted only if the HMAC takes the same value on two
  different payloads.
\<close>

lemma buildActionUrl_verified_iff:
  assumes "T \<noteq> []" "action \<noteq> []" "ts \<noteq> []" "nonce \<noteq> []" "secret \<noteq> []"
  shows "verifySignature hmac secret
           (query (buildActionUrl hmac ts nonce baseUrl action
              [(''taskId'', T), (''tasksDbId'', D), (''calendarDbId'', C)] secret))
         = (hmac secret (join ''|'' [T, action, [], [], D, C]) \<noteq> [] \<and>
            hmac secret (join ''|'' [T, action, ts, nonce, D, C])
              = hmac secret (join ''|'' [T, action, [], [], D, C]))"
  using assms
  by (auto simp add: buildActionUrl_def verifySignature_def obj_get_def str_or_def Let_def)

lemma payloads_differ:
  "ts \<noteq> [] \<Longrightarrow> join ''|'' [T, action, ts, nonce, D, C] \<noteq> join ''|'' [T, action, [], [], D, C]"
proof
  assume ts: "ts \<noteq> []" and eq: "join ''|'' [T, action, ts, nonce, D, C] = join ''|'' [T, action, [], [], D, C]"
  from eq have "length (join ''|'' [T, action, ts, nonce, D, C]) = length (join ''|'' [T, action, [], [], D, C])"
    by (rule arg_cong)
  with ts show False by simp
qed

text \<open>
  C10 (evaluation at a link the installer builds). The link for action \<open>start\<close> of task
  \<open>task1\<close> is accepted by \<open>verifySignature\<close> with the same secret just when the HMAC of
  \<open>task1|start|1700000000000|n-1|db1|cal1\<close> equals the HMAC of \<open>task1|start|||db1|cal1\<close>,
  the payload that was signed: the round trip fails unless HMAC-SHA256 collides.
\<close>

theorem buildActionUrl_signature_rejected:
  "verifySignature hmac ''s3cret''
     (query (buildActionUrl hmac ''1700000000000'' ''n-1'' ''https://x.vercel.app/api'' ''start''
        [(''taskId'', ''task1''), (''tasksDbId'', ''db1''), (''calendarDbId'', ''cal1'')] ''s3cret''))
   = (hmac ''s3cret'' ''task1|start|||db1|cal1'' \<noteq> [] \<and>
      hmac ''s3cret'' ''task1|start|1700000000000|n-1|db1|cal1'' = hmac ''s3cret'' ''task1|start|||db1|cal1'')"
  by (auto simp add: buildActionUrl_def verifySignature_def obj_get_def str_or_def Let_def)

section \<open>Properties of sanitizing\<close>

lemma js_prop_obj_set_same: "js_prop (obj_set k v ob) k = v"
  by (induction ob) (auto simp: js_prop_def)

lemma js_prop_obj_set_other: "k' \<noteq> k \<Longrightarrow> js_prop (obj_set k v ob) k' = js_prop ob k'"
  by (induction ob) (auto simp: js_prop_def)

lemma obj_get_obj_set_same: "obj_get (obj_set k v ob) k = Some v"
  by (induction ob) (auto simp: obj_get_def)

lemma obj_get_obj_set_other: "k' \<noteq> k \<Longrightarrow> obj_get (obj_set k v ob) k' = obj_get ob k'"
  by (induction ob) (auto simp: obj_get_def)

lemma keys_obj_set: "fst ` set (obj_set k v ob) = insert k (fst ` set ob)"
  by (induction ob) auto

text \<open>The copy: its identities are new ones, and JSON data keeps its content.\<close>

lemma json_copy_grows:
  "n \<le> snd (json_copy v n)"
  "n \<le> snd (json_copy_elems xs n)"
  "n \<le> snd (json_copy_props ps n)"
proof (induction v n and xs n and ps n rule: json_copy_json_copy_elems_json_copy_props.induct)
  case (1 a xs n)
  then show ?case by (auto split: prod.splits)
next
  case (2 a ps n)
  then show ?case by (auto split: prod.splits)
next
  case (9 x xs n)
  then show ?case by (fastforce split: prod.splits if_splits)
next
  case (11 p ps n)
  then show ?case by (fastforce split: prod.splits if_splits)
qed simp_all

lemma json_copy_new:
  "set (identities (fst (json_copy v n))) \<subseteq> {n ..< snd (json_copy v n)}"
  "set (identities_elems (fst (json_copy_elems xs n))) \<subseteq> {n ..< snd (json_copy_elems xs n)}"
  "set (identities_props (fst (json_copy_props ps n))) \<subseteq> {n ..< snd (json_copy_props ps n)}"
proof (induction v n and xs n and ps n rule: json_copy_json_copy_elems_json_copy_props.induct)
  case (1 a xs n)
  obtain ys n' where c: "json_copy_elems xs (Suc n) = (ys, n')" by (cases "json_copy_elems xs (Suc n)")
  from json_copy_grows(2) [of "Suc n" xs] c have "Suc n \<le> n'" by simp
  with 1 c show ?case by auto
next
  case (2 a ps n)
  obtain qs n' where c: "json_copy_props ps (Suc n) = (qs, n')" by (cases "json_copy_props ps (Suc n)")
  from json_copy_grows(3) [of "Suc n" ps] c have "Suc n \<le> n'" by simp
  with 2 c show ?case by auto
next
  case (9 x xs n)
  obtain y n1 where c1: "(if x = JUndefined then (JNull, n) else json_copy x n) = (y, n1)"
    by (cases "if x = JUndefined then (JNull, n) else json_copy x n")
  obtain ys n2 where c2: "json_copy_elems xs n1 = (ys, n2)" by (cases "json_copy_elems xs n1")
  have g1: "n \<le> n1" using c1 json_copy_grows(1) [of n x] by (auto split: if_splits)
  have g2: "n1 \<le> n2" using c2 json_copy_grows(2) [of n1 xs] by simp
  have i1: "set (identities y) \<subseteq> {n ..< n1}"
    using c1 9(1) by (auto split: if_splits)
  have i2: "set (identities_elems ys) \<subseteq> {n1 ..< n2}"
    using 9(2) [OF c1 [symmetric]] c2 by simp
  from c1 c2 have "json_copy_elems (x # xs) n = (y # ys, n2)" by simp
  with g1 g2 i1 i2 show ?case by auto
next
  case (11 p ps n)
  show ?case
  proof (cases "snd p = JUndefined")
    case True
    with 11(1) show ?thesis by simp
  next
    case False
    obtain v n1 where c1: "json_copy (snd p) n = (v, n1)" by (cases "json_copy (snd p) n")
    obtain qs n2 where c2: "json_copy_props ps n1 = (qs, n2)" by (cases "json_copy_props ps n1")
    have g1: "n \<le> n1" using c1 json_copy_grows(1) [of n "snd p"] by simp
    have g2: "n1 \<le> n2" using c2 json_copy_grows(3) [of n1 ps] by simp
    have i1: "set (identities v) \<subseteq> {n ..< n1}" using 11(2) [OF False] c1 by simp
    have i2: "set (identities_props qs) \<subseteq> {n1 ..< n2}"
      using 11(3) [OF False c1 [symmetric]] c2 by simp
    from False c1 c2 have "json_copy_props (p # ps) n = ((fst p, v) # qs, n2)" by simp
    with g1 g2 i1 i2 show ?thesis by auto
  qed
qed simp_all

lemma json_copy_content:
  "is_json v \<Longrightarrow> content (fst (json_copy v n)) = content v"
  "is_json_elems xs \<Longrightarrow> content_elems (fst (json_copy_elems xs n)) = content_elems xs"
  "is_json_props ps \<Longrightarrow> content_props (fst (json_copy_props ps n)) = content_props ps"
proof (induction v n and xs n and ps n rule: json_copy_json_copy_elems_json_copy_props.induct)
  case (1 a xs n)
  then show ?case by (auto split: prod.splits)
next
  case (2 a ps n)
  then show ?case by (auto split: prod.splits)
next
  case (9 x xs n)
  from 9(3) have x: "x \<noteq> JUndefined" "is_json x" "is_json_elems xs" by auto
  obtain y n1 where c1: "json_copy x n = (y, n1)" by (cases "json_copy x n")
  obtain ys n2 where c2: "json_copy_elems xs n1 = (ys, n2)" by (cases "json_copy_elems xs n1")
  from x c1 have c1': "(y, n1) = (if x = JUndefined then (JNull, n) else json_copy x n)" by simp
  from 9(1) [OF x(1,2)] c1 have "content y = content x" by simp
  moreover from 9(2) [OF c1' x(3)] c2 have "content_elems ys = content_elems xs" by simp
  moreover from x c1 c2 have "json_copy_elems (x # xs) n = (y # ys, n2)" by simp
  ultimately show ?case by simp
next
  case (11 p ps n)
  from 11(4) have x: "snd p \<noteq> JUndefined" "is_json (snd p)" "is_json_props ps" by auto
  obtain v n1 where c1: "json_copy (snd p) n = (v, n1)" by (cases "json_copy (snd p) n")
  obtain qs n2 where c2: "json_copy_props ps n1 = (qs, n2)" by (cases "json_copy_props ps n1")
  from 11(2) [OF x(1,2)] c1 have "content v = content (snd p)" by simp
  moreover from 11(3) [OF x(1) c1 [symmetric] x(3)] c2 have "content_props qs = content_props ps" by simp
  moreover from x c1 c2 have "json_copy_props (p # ps) n = ((fst p, v) # qs, n2)" by simp
  ultimately show ?case by simp
qed simp_all

lemma truthy_content: "truthy (content v) = truthy v"
  by (cases v) simp_all

lemma is_object_content: "is_object (content v) = is_object v"
  by (cases v) simp_all

lemma map_of_content_props: "map_of (content_props ps) k = map_option content (map_of ps k)"
  by (induction ps) auto

lemma rich_text_of_content: "rich_text_of (content v) = content (rich_text_of v)"
  by (cases v) (simp_all add: rich_text_of_def js_prop_def map_of_content_props split: option.splits)

lemma list_all_object_content: "list_all is_object (content_elems xs) = list_all is_object xs"
  by (induction xs) (simp_all add: is_object_content)

lemma rich_text_ok_content:
  assumes "content cp = content p" and "rich_text_ok p"
  shows "rich_text_ok cp"
proof -
  from assms(1) have eq: "content (rich_text_of cp) = content (rich_text_of p)"
    by (simp add: rich_text_of_content [symmetric])
  show ?thesis
  proof (cases "rich_text_of cp")
    case (JArr a rts)
    with eq obtain a' rts' where p: "rich_text_of p = JArr a' rts'"
      and c: "content_elems rts' = content_elems rts"
      by (cases "rich_text_of p") auto
    from assms(2) p have "list_all is_object rts'" by (simp add: rich_text_ok_def)
    then have "list_all is_object (content_elems rts')" by (simp add: list_all_object_content)
    with c have "list_all is_object rts" by (simp add: list_all_object_content)
    with JArr show ?thesis by (simp add: rich_text_ok_def)
  next
    case (JObj a ps)
    with eq obtain a' ps' where "rich_text_of p = JObj a' ps'" by (cases "rich_text_of p") auto
    with assms(2) show ?thesis by (simp add: rich_text_ok_def)
  next
    case JUndefined
    then show ?thesis by (simp add: rich_text_ok_def)
  next
    case JNull
    then show ?thesis by (simp add: rich_text_ok_def)
  next
    case (JBool x)
    with eq have "rich_text_of p = JBool x" by (cases "rich_text_of p") auto
    with assms(2) JBool show ?thesis by (simp add: rich_text_ok_def)
  next
    case (JNum x)
    with eq have "rich_text_of p = JNum x" by (cases "rich_text_of p") auto
    with assms(2) JNum show ?thesis by (simp add: rich_text_ok_def)
  next
    case (JStr x)
    with eq have "rich_text_of p = JStr x" by (cases "rich_text_of p") auto
    with assms(2) JStr show ?thesis by (simp add: rich_text_ok_def)
  qed
qed

text \<open>The spread of the elements of \<open>rich_text\<close>: new objects with the properties of the old.\<close>

lemma spread_all_grows: "n \<le> snd (spread_all rts n)"
proof (induction rts arbitrary: n)
  case (Cons rt rts)
  from Cons [of "Suc n"] show ?case by (auto split: prod.splits)
qed simp

lemma spread_all_content:
  "list_all is_object rts \<Longrightarrow> content_elems (fst (spread_all rts n)) = content_elems rts"
proof (induction rts arbitrary: n)
  case (Cons rt rts)
  from Cons.prems obtain a ps where rt: "rt = JObj a ps" by (cases rt) auto
  from Cons.prems Cons.IH [of "Suc n"] rt show ?case
    by (auto simp: spread_def split: prod.splits)
qed simp

lemma spread_all_identities:
  "list_all is_object rts \<Longrightarrow>
   set (identities_elems (fst (spread_all rts n))) \<subseteq>
     {n ..< snd (spread_all rts n)} \<union> set (identities_elems rts)"
proof (induction rts arbitrary: n)
  case (Cons rt rts)
  from Cons.prems obtain a ps where rt: "rt = JObj a ps" by (cases rt) auto
  obtain out n' where c: "spread_all rts (Suc n) = (out, n')" by (cases "spread_all rts (Suc n)")
  from spread_all_grows [of "Suc n" rts] c have g: "Suc n \<le> n'" by simp
  from Cons.prems Cons.IH [of "Suc n"] c
  have "set (identities_elems out) \<subseteq> {Suc n ..< n'} \<union> set (identities_elems rts)" by simp
  with rt c g show ?case by (auto simp: spread_def)
qed simp

lemma content_props_obj_set:
  "map_of ps k = Some v0 \<Longrightarrow> content v = content v0 \<Longrightarrow>
   content_props (obj_set k v ps) = content_props ps"
  by (induction ps) (auto split: if_splits)

lemma identities_props_obj_set:
  "set (identities_props (obj_set k v ps)) \<subseteq> set (identities_props ps) \<union> set (identities v)"
  by (induction ps) auto

lemma identities_props_member:
  "map_of ps k = Some v \<Longrightarrow> set (identities v) \<subseteq> set (identities_props ps)"
  by (induction ps) (auto split: if_splits)

lemma not_truthy_rich_text: "\<not> truthy p \<Longrightarrow> rich_text_of p = JUndefined"
  by (cases p) (simp_all add: rich_text_of_def)

text \<open>
  The \<open>rich_text\<close> step on a payload whose \<open>rich_text\<close> is as the API sends it: the payload
  keeps its content and gets new identities only; the other properties of \<open>base\<close> stay.
\<close>

lemma copy_rich_text_api:
  assumes cp: "obj_get base k = Some cp" and ok: "rich_text_ok cp"
  shows "\<exists>base' n' q. copy_rich_text k base n = Inr (base', n') \<and> n \<le> n' \<and>
           fst ` set base' = fst ` set base \<and>
           (\<forall>k'. k' \<noteq> k \<longrightarrow> obj_get base' k' = obj_get base k') \<and>
           obj_get base' k = Some q \<and> content q = content cp \<and>
           set (identities q) \<subseteq> set (identities cp) \<union> {n ..< n'}"
proof -
  from cp have rd: "js_member base k = Own cp" by (simp add: js_member_def obj_get_def)
  from cp have mem: "k \<in> fst ` set base"
    by (metis obj_get_def domI dom_map_of_conv_image_fst)
  show ?thesis
  proof (cases "truthy (rich_text_of cp)")
    case False
    with rd have "copy_rich_text k base n = Inr (base, n)" by (simp add: copy_rich_text_def)
    with cp show ?thesis by auto
  next
    case True
    with ok obtain r rts where rich: "rich_text_of cp = JArr r rts" and objs: "list_all is_object rts"
      by (cases "rich_text_of cp") (simp_all add: rich_text_ok_def)
    then obtain a ps where obj: "cp = JObj a ps" by (cases cp) (simp_all add: rich_text_of_def)
    with rich have own: "map_of ps ''rich_text'' = Some (JArr r rts)"
      by (simp add: rich_text_of_def js_prop_def split: option.splits)
    obtain out n' where sp: "spread_all rts (Suc n) = (out, n')" by (cases "spread_all rts (Suc n)")
    define q where "q = JObj a (obj_set ''rich_text'' (JArr n out) ps)"
    from rd obj rich sp have res: "copy_rich_text k base n = Inr (obj_set k q base, n')"
      by (simp add: copy_rich_text_def q_def)
    from spread_all_grows [of "Suc n" rts] sp have g: "Suc n \<le> n'" by simp
    from spread_all_content [OF objs, of "Suc n"] sp
    have "content (JArr n out) = content (JArr r rts)" by simp
    from content_props_obj_set [OF own this] obj have cq: "content q = content cp"
      by (simp add: q_def)
    from spread_all_identities [OF objs, of "Suc n"] sp
    have "set (identities_elems out) \<subseteq> {Suc n ..< n'} \<union> set (identities_elems rts)" by simp
    moreover from identities_props_member [OF own]
    have "set (identities_elems rts) \<subseteq> set (identities_props ps)" by auto
    ultimately have "set (identities (JArr n out)) \<subseteq> set (identities_props ps) \<union> {n ..< n'}"
      using g by auto
    with identities_props_obj_set [of "''rich_text''" "JArr n out" ps] obj
    have iq: "set (identities q) \<subseteq> set (identities cp) \<union> {n ..< n'}"
      unfolding q_def by auto
    have keys: "fst ` set (obj_set k q base) = fst ` set base"
      using mem by (auto simp: keys_obj_set)
    from res g cq iq keys show ?thesis
      by (auto simp: obj_get_obj_set_same obj_get_obj_set_other)
  qed
qed

text \<open>A block as the API sends it takes the general path of the callback.\<close>

lemma sanitize_block_general:
  assumes "has_key (js_prop b ''type'')" and "to_key (js_prop b ''type'') \<notin> set reserved_keys"
  shows "sanitize_block b n =
     (case copy_payload b (js_prop b (to_key (js_prop b ''type''))) n of
        (base, n1) \<Rightarrow>
          (case copy_rich_text (to_key (js_prop b ''type'')) base n1 of
             Inl e \<Rightarrow> Inl e
           | Inr (base', n2) \<Rightarrow> Inr (mark_children b base', n2)))"
proof (cases "map_of b (to_key (js_prop b ''type''))")
  case None
  with assms show ?thesis
    by (simp add: sanitize_block_def js_member_def reserved_keys_def js_prop_def [of b "to_key _"])
next
  case (Some v)
  with assms show ?thesis
    by (simp add: sanitize_block_def js_member_def reserved_keys_def js_prop_def [of b "to_key _"])
qed

lemma sanitize_block_ok:
  assumes ok: "block_ok b" and above: "\<forall>i \<in> set (block_identities blocks). i < n"
  shows "\<exists>out n'. sanitize_block b n = Inr (out, n') \<and> n \<le> n' \<and> sanitized_form blocks b out"
proof -
  define t where "t = js_prop b ''type''"
  define k where "k = to_key t"
  define p where "p = js_prop b k"
  define base0 where "base0 = [(''type'', t)]"
  from ok have hk: "has_key t" and res: "k \<notin> set reserved_keys"
    and cases: "\<not> truthy p \<or> api_payload p"
    unfolding block_ok_def p_def k_def t_def by blast+
  from res have kt: "k \<noteq> ''type''" and kh: "k \<noteq> ''has_children''"
    by (auto simp: reserved_keys_def)
  have sb: "sanitize_block b n =
     (case copy_payload b p n of
        (base, n1) \<Rightarrow>
          (case copy_rich_text k base n1 of
             Inl e \<Rightarrow> Inl e
           | Inr (base', n2) \<Rightarrow> Inr (mark_children b base', n2)))"
    using sanitize_block_general [of b n] hk res unfolding p_def k_def t_def by simp
  have mark: "sanitized_form blocks b (mark_children b base)"
    if keys: "fst ` set base \<subseteq> {''type'', k}"
      and ty: "obj_get base ''type'' = Some t"
      and pay: "if truthy p
                then \<exists>q. obj_get base k = Some q \<and> content q = content p \<and>
                         set (identities q) \<inter> set (block_identities blocks) = {}
                else obj_get base k = None"
    for base :: "jsval obj"
  proof -
    have nohc: "obj_get base ''has_children'' = None"
      using keys kh by (auto simp: obj_get_def map_of_eq_None_iff)
    show ?thesis
      unfolding sanitized_form_def t_def [symmetric] k_def [symmetric] p_def [symmetric]
      using keys ty pay nohc kt kh
      by (auto simp: mark_children_def keys_obj_set obj_get_obj_set_same obj_get_obj_set_other)
  qed
  show ?thesis
  proof (cases "truthy p")
    case False
    then have cp: "copy_payload b p n = (base0, n)"
      by (simp add: copy_payload_def Let_def base0_def t_def)
    have "map_of base0 k = None" using kt by (simp add: base0_def)
    then have "copy_rich_text k base0 n = Inr (base0, n)"
      by (simp add: copy_rich_text_def js_member_def)
    with sb cp have r: "sanitize_block b n = Inr (mark_children b base0, n)" by simp
    have "sanitized_form blocks b (mark_children b base0)"
      using False kt by (intro mark) (simp_all add: base0_def obj_get_def)
    with r show ?thesis by simp
  next
    case True
    with cases have api: "is_json p" "rich_text_ok p" by (simp_all add: api_payload_def)
    obtain cp n1 where jc: "json_copy p n = (cp, n1)" by (cases "json_copy p n")
    define base1 where "base1 = obj_set k cp base0"
    from True jc have cpl: "copy_payload b p n = (base1, n1)"
      by (simp add: copy_payload_def Let_def base1_def base0_def k_def t_def del: obj_set.simps)
    from json_copy_grows(1) [of n p] jc have g1: "n \<le> n1" by simp
    from json_copy_new(1) [of p n] jc have new: "set (identities cp) \<subseteq> {n ..< n1}" by simp
    from json_copy_content(1) [OF api(1), of n] jc have cc: "content cp = content p" by simp
    from rich_text_ok_content [OF cc api(2)] have rok: "rich_text_ok cp" .
    have get1: "obj_get base1 k = Some cp" by (simp add: base1_def obj_get_obj_set_same)
    from copy_rich_text_api [OF get1 rok, of n1]
    obtain base' n' q where crt: "copy_rich_text k base1 n1 = Inr (base', n')" and g2: "n1 \<le> n'"
      and keys: "fst ` set base' = fst ` set base1"
      and others: "\<forall>k'. k' \<noteq> k \<longrightarrow> obj_get base' k' = obj_get base1 k'"
      and q: "obj_get base' k = Some q" "content q = content cp"
             "set (identities q) \<subseteq> set (identities cp) \<union> {n1 ..< n'}"
      by blast
    from sb cpl crt have r: "sanitize_block b n = Inr (mark_children b base', n')" by simp
    have keys': "fst ` set base' \<subseteq> {''type'', k}"
      unfolding keys base1_def keys_obj_set by (simp add: base0_def)
    have ty: "obj_get base' ''type'' = Some t"
      using others kt by (simp add: base1_def obj_get_obj_set_other base0_def obj_get_def)
    have "n \<le> i" if "i \<in> set (identities q)" for i
    proof -
      from that q(3) have "i \<in> set (identities cp) \<or> i \<in> {n1 ..< n'}" by blast
      with new g1 show ?thesis by fastforce
    qed
    with above have "set (identities q) \<inter> set (block_identities blocks) = {}" by fastforce
    with q(1,2) cc True have "sanitized_form blocks b (mark_children b base')"
      using keys' ty by (intro mark) auto
    with r g1 g2 show ?thesis by simp
  qed
qed

lemma map_blocks_ok:
  assumes "\<forall>i \<in> set (block_identities blocks). i < n"
  shows "\<forall>b \<in> set bs. block_ok b \<Longrightarrow>
         \<exists>outs. map_blocks bs n = Inr outs \<and> list_all2 (sanitized_form blocks) bs outs"
  using assms
proof (induction bs arbitrary: n)
  case Nil
  then show ?case by simp
next
  case (Cons b bs)
  from Cons.prems have "block_ok b" by simp
  from sanitize_block_ok [OF this Cons.prems(2)]
  obtain out n' where out: "sanitize_block b n = Inr (out, n')" "n \<le> n'" "sanitized_form blocks b out"
    by blast
  from Cons.prems(2) out(2) have "\<forall>i \<in> set (block_identities blocks). i < n'" by auto
  with Cons.IH [of n'] Cons.prems(1)
  obtain outs where outs: "map_blocks bs n' = Inr outs" "list_all2 (sanitized_form blocks) bs outs"
    by auto
  from outs out have "map_blocks (b # bs) n = Inr (out # outs) \<and>
      list_all2 (sanitized_form blocks) (b # bs) (out # outs)" by simp
  then show ?case by blast
qed

lemma first_unused_above: "\<forall>i \<in> set (block_identities blocks). i < first_unused blocks"
proof -
  have "i \<in> set xs \<Longrightarrow> i \<le> foldr max xs 0" for i :: nat and xs
    by (induction xs) auto
  then show ?thesis by (auto simp: first_unused_def less_Suc_eq_le)
qed

text \<open>
  C7 (amended). For every list of blocks each of which is \<open>block_ok\<close> (its type tag has a
  property key, which is none of \<open>type\<close>, \<open>has_children\<close>, \<open>__proto__\<close> and the names of the
  functions every object inherits; its payload, the property the tag names, is falsy, or JSON
  data whose \<open>rich_text\<close> is absent, falsy or an array of objects), \<open>sanitizeBlocks\<close> returns a
  list of the same length, in the same order, and each element is the sanitized form of the
  block at its position: no key besides \<open>type\<close>, the tag's own key and \<open>has_children\<close>; the
  type tag, recognized or not; \<open>has_children = true\<close> exactly when the marker is set on the
  source; and under the tag's key, exactly when the source has a truthy payload, a deep copy
  of it: equal in content, and sharing no array and no object with any block of the input.
  Nothing is dropped.
\<close>

theorem sanitizeBlocks_api_blocks:
  assumes "\<forall>b \<in> set blocks. block_ok b"
  shows "\<exists>out. sanitizeBlocks blocks = Inr out \<and> length out = length blocks \<and>
           (\<forall>i < length blocks. sanitized_form blocks (blocks ! i) (out ! i))"
proof -
  from map_blocks_ok [OF first_unused_above assms]
  obtain outs where outs: "map_blocks blocks (first_unused blocks) = Inr outs"
    "list_all2 (sanitized_form blocks) blocks outs"
    by blast
  then have "sanitizeBlocks blocks = Inr outs" by (simp add: sanitizeBlocks_def)
  moreover from outs(2) have "length outs = length blocks" by (simp add: list_all2_lengthD)
  moreover from outs(2) have "\<forall>i < length blocks. sanitized_form blocks (blocks ! i) (outs ! i)"
    by (simp add: list_all2_nthD)
  ultimately show ?thesis by blast
qed

lemmas sanitize_eval =
  sanitizeBlocks_def first_unused_def block_identities_def sanitize_block_def sanitize_proto_def
  js_member_def copy_payload_def copy_rich_text_def mark_children_def js_prop_def rich_text_of_def
  spread_def digit_char_def inherited_functions_def Let_def

theorem sanitizeBlocks_api_blocks_witness:
  "block_ok [(''id'', JStr ''b1''), (''type'', JStr ''paragraph''),
             (''paragraph'', JObj 1 [(''rich_text'', JArr 2 [JObj 3 [(''plain_text'', JStr ''hi'')]])]),
             (''has_children'', JBool True)] \<and>
   block_ok [(''id'', JStr ''b2''), (''type'', JStr ''mystery''), (''mystery'', JObj 5 [(''x'', JNum ''1'')])] \<and>
   (\<exists>out. sanitizeBlocks
       [[(''id'', JStr ''b1''), (''type'', JStr ''paragraph''),
         (''paragraph'', JObj 1 [(''rich_text'', JArr 2 [JObj 3 [(''plain_text'', JStr ''hi'')]])]),
         (''has_children'', JBool True)],
        [(''id'', JStr ''b2''), (''type'', JStr ''mystery''), (''mystery'', JObj 5 [(''x'', JNum ''1'')])]]
      = Inr out \<and> length out = 2 \<and>
      obj_get (out ! 0) ''type'' = Some (JStr ''paragraph'') \<and>
      obj_get (out ! 0) ''has_children'' = Some (JBool True) \<and>
      obj_get (out ! 0) ''id'' = None \<and>
      (\<exists>q. obj_get (out ! 1) ''mystery'' = Some q \<and> content q = JObj 0 [(''x'', JNum ''1'')] \<and>
           set (identities q) \<inter> {1, 2, 3, 5} = {}))"
proof -
  let ?b1 = "[(''id'', JStr ''b1''), (''type'', JStr ''paragraph''),
             (''paragraph'', JObj 1 [(''rich_text'', JArr 2 [JObj 3 [(''plain_text'', JStr ''hi'')]])]),
             (''has_children'', JBool True)]"
  let ?b2 = "[(''id'', JStr ''b2''), (''type'', JStr ''mystery''), (''mystery'', JObj 5 [(''x'', JNum ''1'')])]"
  have ok: "block_ok ?b1" "block_ok ?b2"
    by (simp_all add: block_ok_def js_prop_def reserved_keys_def inherited_functions_def
          api_payload_def rich_text_ok_def rich_text_of_def)
  then have "\<forall>b \<in> set [?b1, ?b2]. block_ok b" by simp
  from sanitizeBlocks_api_blocks [OF this]
  obtain out where out: "sanitizeBlocks [?b1, ?b2] = Inr out" "length out = 2"
    and all: "\<forall>i < length [?b1, ?b2]. sanitized_form [?b1, ?b2] ([?b1, ?b2] ! i) (out ! i)"
    by auto
  from all [rule_format, of 0] have o1: "sanitized_form [?b1, ?b2] ?b1 (out ! 0)" by simp
  from all [rule_format, of 1] have o2: "sanitized_form [?b1, ?b2] ?b2 (out ! 1)" by simp
  from o1 have "obj_get (out ! 0) ''type'' = Some (JStr ''paragraph'')"
    "obj_get (out ! 0) ''has_children'' = Some (JBool True)"
    by (simp_all add: sanitized_form_def js_prop_def)
  moreover from o1 have "fst ` set (out ! 0) \<subseteq> {''type'', ''paragraph'', ''has_children''}"
    by (simp add: sanitized_form_def js_prop_def)
  then have "obj_get (out ! 0) ''id'' = None"
    by (auto simp: obj_get_def map_of_eq_None_iff)
  moreover from o2 have "\<exists>q. obj_get (out ! 1) ''mystery'' = Some q \<and>
      content q = JObj 0 [(''x'', JNum ''1'')] \<and> set (identities q) \<inter> {1, 2, 3, 5} = {}"
    by (simp add: sanitized_form_def js_prop_def block_identities_def)
  ultimately show ?thesis using ok out(1,2) by blast
qed

text \<open>
  C7 as stated fails: a payload whose \<open>rich_text\<close> is a string makes \<open>sanitizeBlocks\<close>
  throw; the block is not passed through and no list is returned.
\<close>

theorem sanitizeBlocks_total_counterexample:
  "sanitizeBlocks [[(''type'', JStr ''paragraph''),
                    (''paragraph'', JObj 0 [(''rich_text'', JStr ''hello'')])]] = Inl TypeError"
  by (simp add: sanitize_eval)

text \<open>
  The blocks left out above. A type tag that names a function every object inherits makes
  \<open>sanitizeBlocks\<close> throw too; so does a tag with no property key. Under the tag
  \<open>has_children\<close> the marker takes the place of the copied payload, under the tag
  \<open>__proto__\<close> the output has no payload, and under the tag \<open>type\<close> the copy takes the place
  of the tag. The elements of a \<open>rich_text\<close> array that are no objects come out as objects.
\<close>

lemma sanitizeBlocks_inherited_tag:
  "sanitizeBlocks [[(''type'', JStr ''toString'')]] = Inl SyntaxError"
  by (simp add: sanitize_eval)

lemma sanitizeBlocks_tag_without_key:
  "sanitizeBlocks [[(''type'', JObj 0 [(''toString'', JNull)])]] = Inl TypeError"
  by (simp add: sanitize_eval)

lemma sanitizeBlocks_has_children_tag:
  "sanitizeBlocks [[(''type'', JStr ''has_children''), (''has_children'', JObj 0 [(''x'', JNull)])]] =
     Inr [[(''type'', JStr ''has_children''), (''has_children'', JBool True)]]"
  by (simp add: sanitize_eval)

lemma sanitizeBlocks_proto_tag:
  "sanitizeBlocks [[(''type'', JStr ''__proto__''), (''__proto__'', JObj 0 [(''x'', JNull)])]] =
     Inr [[(''type'', JStr ''__proto__'')]]"
  by (simp add: sanitize_eval)

lemma sanitizeBlocks_type_tag:
  "sanitizeBlocks [[(''type'', JArr 0 [JStr ''type''])]] = Inr [[(''type'', JArr 1 [JStr ''type''])]]"
  by (simp add: sanitize_eval)

lemma sanitizeBlocks_rich_text_elements:
  "sanitizeBlocks [[(''type'', JStr ''paragraph''),
                    (''paragraph'', JObj 0 [(''rich_text'', JArr 1 [JStr ''a'', JNull])])]] =
     Inr [[(''type'', JStr ''paragraph''),
           (''paragraph'', JObj 2 [(''rich_text'', JArr 4 [JObj 5 [(''0'', JStr ''a'')], JObj 6 []])])]]"
  by (simp add: sanitize_eval)

section \<open>Properties of creating in batches\<close>

declare create_loop.simps [simp del]

lemma create_loop_exit:
  "\<not> i < length sanitized \<Longrightarrow> create_loop sink sanitized i created sent = (Inr created, sent)"
  by (subst create_loop.simps) simp

lemma create_loop_reject:
  "i < length sanitized \<Longrightarrow>
   result (withRetry (sink (length sent) (slice sanitized i (i + 50)))) = Rejected e \<Longrightarrow>
   create_loop sink sanitized i created sent = (Inl e, sent @ [slice sanitized i (i + 50)])"
  by (subst create_loop.simps) (simp add: Let_def)

lemma create_loop_continue:
  "i < length sanitized \<Longrightarrow>
   result (withRetry (sink (length sent) (slice sanitized i (i + 50)))) = Resolved results \<Longrightarrow>
   create_loop sink sanitized i created sent =
     create_loop sink sanitized (i + 50) (created @ results) (sent @ [slice sanitized i (i + 50)])"
  by (subst create_loop.simps) (simp add: Let_def)

lemma sent_ok_snoc:
  assumes "sent_ok sink sanitized sent" "50 * length sent < length sanitized"
    and "result (withRetry (sink (length sent) (slice sanitized (50 * length sent) (50 * length sent + 50))))
           = Resolved res"
  shows "sent_ok sink sanitized (sent @ [slice sanitized (50 * length sent) (50 * length sent + 50)])"
  unfolding sent_ok_def
proof (intro allI impI)
  fix j
  assume "j < length (sent @ [slice sanitized (50 * length sent) (50 * length sent + 50)])"
  then consider "j < length sent" | "j = length sent" by fastforce
  then show "(sent @ [slice sanitized (50 * length sent) (50 * length sent + 50)]) ! j
                = slice sanitized (50 * j) (50 * j + 50) \<and>
             50 * j < length sanitized \<and>
             (\<exists>res. result (withRetry (sink j
                 ((sent @ [slice sanitized (50 * length sent) (50 * length sent + 50)]) ! j))) = Resolved res)"
  proof cases
    case 1
    from assms(1) [unfolded sent_ok_def, rule_format, OF 1] 1
    show ?thesis by (auto simp: nth_append)
  next
    case 2
    with assms(2,3) show ?thesis by (simp add: nth_append)
  qed
qed

lemma create_loop_sent:
  assumes "i = 50 * length sent" and "sent_ok sink sanitized sent"
    and "create_loop sink sanitized i created sent = (r, sent')"
  shows "(case r of
            Inr cs \<Rightarrow> sent_ok sink sanitized sent' \<and> length sanitized \<le> 50 * length sent'
          | Inl e \<Rightarrow> (\<exists>pre. sent' = pre @ [slice sanitized (50 * length pre) (50 * length pre + 50)] \<and>
                      sent_ok sink sanitized pre \<and> 50 * length pre < length sanitized \<and>
                      result (withRetry (sink (length pre) (last sent'))) = Rejected e))"
  using assms
proof (induction sink sanitized i created sent rule: create_loop.induct)
  case (1 sink sanitized i created sent)
  show ?case
  proof (cases "i < length sanitized")
    case False
    with "1.prems" show ?thesis by (auto simp: create_loop_exit)
  next
    case True
    let ?chunk = "slice sanitized i (i + 50)"
    show ?thesis
    proof (cases "result (withRetry (sink (length sent) ?chunk))")
      case (Rejected e)
      with True "1.prems"(3) have "r = Inl e" "sent' = sent @ [?chunk]"
        by (simp_all add: create_loop_reject)
      with Rejected True "1.prems"(1,2) show ?thesis by auto
    next
      case (Resolved results)
      with True "1.prems"(3)
      have eq: "create_loop sink sanitized (i + 50) (created @ results) (sent @ [?chunk]) = (r, sent')"
        by (simp add: create_loop_continue)
      have ok: "sent_ok sink sanitized (sent @ [?chunk])"
        using "1.prems"(1,2) True Resolved sent_ok_snoc [of sink sanitized sent results] by simp
      have "i + 50 = 50 * length (sent @ [?chunk])" using "1.prems"(1) by simp
      from "1.IH" [OF True refl Resolved this ok eq] show ?thesis .
    qed
  qed
qed


lemma length_slice: "length (slice xs i (i + 50)) = min 50 (length xs - i)"
  by (simp add: slice_def)

lemma concat_slices:
  "\<forall>j < length sent. sent ! j = slice xs (50 * j) (50 * j + 50) \<Longrightarrow>
   concat sent = take (50 * length sent) xs"
proof (induction sent rule: rev_induct)
  case Nil
  then show ?case by simp
next
  case (snoc c sent)
  have "\<forall>j < length sent. sent ! j = slice xs (50 * j) (50 * j + 50)"
  proof (intro allI impI)
    fix j assume j: "j < length sent"
    then have "j < length (sent @ [c])" by simp
    with snoc.prems have "(sent @ [c]) ! j = slice xs (50 * j) (50 * j + 50)" by blast
    with j show "sent ! j = slice xs (50 * j) (50 * j + 50)" by (simp add: nth_append)
  qed
  then have ih: "concat sent = take (50 * length sent) xs" by (rule snoc.IH)
  have "length sent < length (sent @ [c])" by simp
  with snoc.prems have "(sent @ [c]) ! length sent = slice xs (50 * length sent) (50 * length sent + 50)"
    by blast
  then have c: "c = take 50 (drop (50 * length sent) xs)" by (simp add: slice_def)
  have "take (50 * length sent + 50) xs = take (50 * length sent) xs @ take 50 (drop (50 * length sent) xs)"
    by (rule take_add)
  moreover have "50 * length (sent @ [c]) = 50 * length sent + 50" by simp
  moreover have "concat (sent @ [c]) = concat sent @ c" by simp
  ultimately show ?case using ih c by (simp only:)
qed

lemma create_batches_facts:
  assumes "create_batches sink sanitized = (r, sent)"
  shows "\<forall>j < length sent. sent ! j = slice sanitized (50 * j) (50 * j + 50) \<and> 50 * j < length sanitized"
    and "\<forall>j. Suc j < length sent \<longrightarrow> (\<exists>res. result (withRetry (sink j (sent ! j))) = Resolved res)"
    and "\<And>cs. r = Inr cs \<Longrightarrow> length sanitized \<le> 50 * length sent"
    and "\<And>e. r = Inl e \<Longrightarrow> \<exists>n chunk. result (withRetry (sink n chunk)) = Rejected e"
proof -
  have ok0: "sent_ok sink sanitized []" by (simp add: sent_ok_def)
  from assms have run: "create_loop sink sanitized 0 [] [] = (r, sent)" by (simp add: create_batches_def)
  note main = create_loop_sent [OF _ ok0 run, simplified]
  show "\<forall>j < length sent. sent ! j = slice sanitized (50 * j) (50 * j + 50) \<and> 50 * j < length sanitized"
  proof (cases r)
    case (Inr cs)
    with main show ?thesis by (simp add: sent_ok_def)
  next
    case (Inl e)
    with main obtain pre where d: "sent = pre @ [slice sanitized (50 * length pre) (50 * length pre + 50)]"
      "sent_ok sink sanitized pre" "50 * length pre < length sanitized" by auto
    show ?thesis
    proof (intro allI impI)
      fix j assume "j < length sent"
      with d(1) consider "j < length pre" | "j = length pre" by fastforce
      then show "sent ! j = slice sanitized (50 * j) (50 * j + 50) \<and> 50 * j < length sanitized"
      proof cases
        case 1
        from d(2) [unfolded sent_ok_def, rule_format, OF 1] 1 d(1) show ?thesis
          by (simp add: nth_append)
      next
        case 2
        with d(1,3) show ?thesis by (simp add: nth_append)
      qed
    qed
  qed
  show "\<forall>j. Suc j < length sent \<longrightarrow> (\<exists>res. result (withRetry (sink j (sent ! j))) = Resolved res)"
  proof (cases r)
    case (Inr cs)
    with main have ok: "sent_ok sink sanitized sent" by simp
    show ?thesis
    proof (intro allI impI)
      fix j assume "Suc j < length sent"
      then have "j < length sent" by simp
      from ok [unfolded sent_ok_def, rule_format, OF this]
      show "\<exists>res. result (withRetry (sink j (sent ! j))) = Resolved res" by blast
    qed
  next
    case (Inl e)
    with main obtain pre where d: "sent = pre @ [slice sanitized (50 * length pre) (50 * length pre + 50)]"
      "sent_ok sink sanitized pre" by auto
    show ?thesis
    proof (intro allI impI)
      fix j assume "Suc j < length sent"
      with d(1) have j: "j < length pre" by simp
      from d(2) [unfolded sent_ok_def, rule_format, OF j] j d(1)
      show "\<exists>res. result (withRetry (sink j (sent ! j))) = Resolved res"
        by (auto simp: nth_append)
    qed
  qed
  show "length sanitized \<le> 50 * length sent" if "r = Inr cs" for cs
    using main that by simp
  show "\<exists>n chunk. result (withRetry (sink n chunk)) = Rejected e" if "r = Inl e" for e
    using main that by auto
qed


text \<open>
  C6. The chunks the loop submits, whatever the sink answers: chunk \<open>j\<close> is
  \<open>sanitized.slice(50 j, 50 j + 50)\<close>, so the chunks follow the source order; each is
  non-empty and has at most 50 nodes; chunk \<open>j + 1\<close> is submitted only after the call for
  chunk \<open>j\<close> has resolved; there are at most \<open>ceil(n / 50)\<close> of them. When no call fails the
  loop completes, and when it completes there are exactly \<open>ceil(n / 50)\<close> chunks, which put
  together are the sanitized list: for 60 nodes, two chunks of 50 and 10; for no node, no
  chunk and so no creation call.
\<close>

theorem create_batches_in_order:
  assumes "create_batches sink sanitized = (r, sent)"
  shows "(\<forall>j < length sent. sent ! j = slice sanitized (50 * j) (50 * j + 50) \<and>
            sent ! j \<noteq> [] \<and> length (sent ! j) \<le> 50) \<and>
         (\<forall>j. Suc j < length sent \<longrightarrow> (\<exists>res. result (withRetry (sink j (sent ! j))) = Resolved res)) \<and>
         length sent \<le> (length sanitized + 49) div 50 \<and>
         ((\<forall>n chunk. \<exists>res. result (withRetry (sink n chunk)) = Resolved res) \<longrightarrow>
            (\<exists>created. r = Inr created)) \<and>
         ((\<exists>created. r = Inr created) \<longrightarrow>
            length sent = (length sanitized + 49) div 50 \<and> concat sent = sanitized) \<and>
         ((\<exists>created. r = Inr created) \<and> length sanitized = 60 \<longrightarrow> map length sent = [50, 10]) \<and>
         (sanitized = [] \<longrightarrow> sent = [] \<and> r = Inr [])"
proof -
  note f = create_batches_facts [OF assms]
  have chunk: "sent ! j = slice sanitized (50 * j) (50 * j + 50) \<and> sent ! j \<noteq> [] \<and> length (sent ! j) \<le> 50"
    if "j < length sent" for j
  proof -
    from f(1) that have a: "sent ! j = slice sanitized (50 * j) (50 * j + 50)" "50 * j < length sanitized"
      by blast+
    then have "length (sent ! j) = min 50 (length sanitized - 50 * j)" by (simp add: length_slice)
    with a have "0 < length (sent ! j)" "length (sent ! j) \<le> 50" by simp_all
    with a(1) show ?thesis by auto
  qed
  have bound: "length sent \<le> (length sanitized + 49) div 50"
  proof (cases "sent = []")
    case True then show ?thesis by simp
  next
    case False
    then have "length sent - 1 < length sent" by simp
    with f(1) have "50 * (length sent - 1) < length sanitized" by blast
    with False have "50 * length sent \<le> length sanitized + 49" by (cases sent) simp_all
    then show ?thesis by linarith
  qed
  have ok: "\<exists>created. r = Inr created"
    if "\<forall>n chunk. \<exists>res. result (withRetry (sink n chunk)) = Resolved res"
  proof (cases r)
    case (Inl e)
    then obtain n chunk where "result (withRetry (sink n chunk)) = Rejected e" using f(4) by blast
    with that show ?thesis by (metis outcome.distinct(1))
  next
    case (Inr cs) then show ?thesis by blast
  qed
  have full: "length sent = (length sanitized + 49) div 50 \<and> concat sent = sanitized"
    if "\<exists>created. r = Inr created"
  proof -
    from that f(3) have ge: "length sanitized \<le> 50 * length sent" by blast
    then have "(length sanitized + 49) div 50 \<le> length sent" by linarith
    with bound have len: "length sent = (length sanitized + 49) div 50" by simp
    from f(1) have "\<forall>j < length sent. sent ! j = slice sanitized (50 * j) (50 * j + 50)" by blast
    then have "concat sent = take (50 * length sent) sanitized" by (rule concat_slices)
    with ge len show ?thesis by simp
  qed
  have sixty: "map length sent = [50, 10]" if "\<exists>created. r = Inr created" "length sanitized = 60"
  proof -
    from that full have len: "length sent = 2" by simp
    then obtain a b where ab: "sent = [a, b]"
      by (cases sent; cases "tl sent") auto
    have "length (sent ! 0) = min 50 (length sanitized - 50 * 0)"
      using f(1) [rule_format, of 0] len length_slice [of sanitized "50 * 0"] by simp
    moreover have "length (sent ! 1) = min 50 (length sanitized - 50 * 1)"
      using f(1) [rule_format, of 1] len length_slice [of sanitized "50 * 1"] by simp
    ultimately show ?thesis using ab that(2) by simp
  qed
  have empty: "sent = [] \<and> r = Inr []" if "sanitized = []"
    using assms that by (simp add: create_batches_def create_loop_exit)
  from chunk f(2) bound ok full sixty empty show ?thesis by blast
qed

theorem create_batches_in_order_witness:
  "map length (snd (create_batches (\<lambda>n chunk k. Resolved chunk) [0 ..< 60 :: nat])) = [50, 10] \<and>
   concat (snd (create_batches (\<lambda>n chunk k. Resolved chunk) [0 ..< 60 :: nat])) = [0 ..< 60]"
proof -
  let ?sink = "\<lambda>(n :: nat) (chunk :: nat list) (k :: nat). Resolved chunk"
  obtain r sent where eq: "create_batches ?sink [0 ..< 60] = (r, sent)"
    by (cases "create_batches ?sink [0 ..< 60]") blast
  have "\<forall>n chunk. \<exists>res. result (withRetry (?sink n chunk)) = Resolved res"
    by (simp add: withRetry_def loop_Resolved)
  with create_batches_in_order [OF eq] have "map length sent = [50, 10]" "concat sent = [0 ..< 60]"
    by simp_all
  with eq show ?thesis by simp
qed

section \<open>Properties of the recursive tree replicator\<close>

lemma rep_inv_init: "rep_inv (rep_init a b)"
  by (simp add: rep_inv_def inv_calls_def inv_tasks_def inv_queue_def rep_init_def)

text \<open>Changing the phase of a call that has not settled.\<close>

lemma inv_calls_set_phase:
  assumes "inv_calls s" "\<forall>r. c_phase (call_of s c) \<noteq> Done r"
  shows "inv_calls (set_phase c ph s)"
  using assms unfolding inv_calls_def set_phase_def
  by (auto split: option.splits)

lemma inv_queue_set_phase: "inv_queue s \<Longrightarrow> inv_queue (set_phase c ph s)"
  by (simp add: inv_queue_def set_phase_def)

lemma inv_tasks_reject: "inv_tasks s \<Longrightarrow> inv_tasks (set_phase c (Done (Rejected e)) s)"
  unfolding inv_tasks_def set_phase_def by auto

lemma inv_tasks_creating:
  assumes "inv_tasks s" "c_phase (call_of s c) = Listing \<or> (\<exists>b sn i cr. c_phase (call_of s c) = Creating b sn i cr)"
  shows "inv_tasks (set_phase c (Creating blocks sanitized i created) s)"
  using assms unfolding inv_tasks_def set_phase_def by auto

lemma inv_tasks_fulfil:
  assumes "inv_tasks s" "c_phase (call_of s c) = Joining ids"
    "\<forall>t \<in> set ids. promise_of (t_stage (task_of s t)) = Some (Resolved ())"
  shows "inv_tasks (set_phase c (Done (Resolved ())) s)"
  using assms unfolding inv_tasks_def set_phase_def by auto


lemma pre_join_not_done: "pre_join s c \<Longrightarrow> \<forall>r. c_phase (call_of s c) \<noteq> Done r"
  by (auto simp: pre_join_def)

lemma inv_calls_spawn:
  assumes "inv_calls s" "pre_join s c"
  shows "inv_calls (spawn c blocks created s)"
  using assms unfolding inv_calls_def spawn_def set_phase_def pre_join_def Let_def
  by auto

lemma pre_join_no_items:
  assumes "inv_tasks s" "pre_join s c" "t < n_tasks s"
  shows "t_owner (task_of s t) \<noteq> c"
  using assms unfolding inv_tasks_def pre_join_def by blast

lemma inv_tasks_spawn:
  assumes "inv_tasks s" "pre_join s c" "c < n_calls s"
  shows "inv_tasks (spawn c blocks created s)"
  unfolding inv_tasks_def
proof (intro allI impI)
  fix t
  let ?s = "spawn c blocks created s"
  assume t: "t < n_tasks ?s"
  show "t_owner (task_of ?s t) < n_calls ?s \<and>
        c_phase (call_of ?s (t_owner (task_of ?s t))) \<noteq> Listing \<and>
        (\<forall>b sn i cr. c_phase (call_of ?s (t_owner (task_of ?s t))) \<noteq> Creating b sn i cr) \<and>
        (\<forall>ids. c_phase (call_of ?s (t_owner (task_of ?s t))) = Joining ids \<longrightarrow> t \<in> set ids) \<and>
        (c_phase (call_of ?s (t_owner (task_of ?s t))) = Done (Resolved ()) \<longrightarrow>
           promise_of (t_stage (task_of ?s t)) = Some (Resolved ()))"
  proof (cases "t < n_tasks s")
    case True
    with assms have "t_owner (task_of s t) \<noteq> c" by (intro pre_join_no_items)
    moreover from assms(1) True have
      "t_owner (task_of s t) < n_calls s \<and>
        c_phase (call_of s (t_owner (task_of s t))) \<noteq> Listing \<and>
        (\<forall>b sn i cr. c_phase (call_of s (t_owner (task_of s t))) \<noteq> Creating b sn i cr) \<and>
        (\<forall>ids. c_phase (call_of s (t_owner (task_of s t))) = Joining ids \<longrightarrow> t \<in> set ids) \<and>
        (c_phase (call_of s (t_owner (task_of s t))) = Done (Resolved ()) \<longrightarrow>
           promise_of (t_stage (task_of s t)) = Some (Resolved ()))"
      unfolding inv_tasks_def by blast
    ultimately show ?thesis using True
      by (simp add: spawn_def set_phase_def Let_def)
  next
    case False
    with t assms(3) show ?thesis
      by (simp add: spawn_def set_phase_def Let_def)
  qed
qed

lemma inv_queue_spawn:
  assumes "inv_queue s"
  shows "inv_queue (spawn c blocks created s)"
  using assms unfolding inv_queue_def spawn_def set_phase_def Let_def
  by auto

lemma rep_inv_spawn:
  "rep_inv s \<Longrightarrow> pre_join s c \<Longrightarrow> c < n_calls s \<Longrightarrow> rep_inv (spawn c blocks created s)"
  by (simp add: rep_inv_def inv_calls_spawn inv_tasks_spawn inv_queue_spawn)

lemma rep_inv_reject:
  "rep_inv s \<Longrightarrow> \<forall>r. c_phase (call_of s c) \<noteq> Done r \<Longrightarrow> rep_inv (set_phase c (Done (Rejected e)) s)"
  by (simp add: rep_inv_def inv_calls_set_phase inv_tasks_reject inv_queue_set_phase)

lemma rep_inv_appended: "rep_inv (s\<lparr>r_appended := x\<rparr>) = rep_inv s"
  by (simp add: rep_inv_def inv_calls_def inv_tasks_def inv_queue_def)

lemma rep_inv_dest: "rep_inv (s\<lparr>r_dest := x\<rparr>) = rep_inv s"
  by (simp add: rep_inv_def inv_calls_def inv_tasks_def inv_queue_def)

lemma rep_inv_timers: "rep_inv (s\<lparr>r_timers := x\<rparr>) = rep_inv s"
  by (simp add: rep_inv_def inv_calls_def inv_tasks_def inv_queue_def)

lemma rep_inv_active: "rep_inv (s\<lparr>active := x\<rparr>) = rep_inv s"
  by (simp add: rep_inv_def inv_calls_def inv_tasks_def inv_queue_def)

lemma pre_join_dest: "pre_join (s\<lparr>r_dest := x\<rparr>) c = pre_join s c"
  by (simp add: pre_join_def)

lemma rep_inv_continue_creating:
  assumes "rep_inv s" "pre_join s c" "c < n_calls s"
  shows "rep_inv (continue_creating c blocks sanitized i created s)"
proof (cases "i < length sanitized")
  case True
  from assms have "rep_inv (set_phase c (Creating blocks sanitized i created) s)"
    by (simp add: rep_inv_def inv_calls_set_phase pre_join_not_done inv_queue_set_phase
          inv_tasks_creating pre_join_def [symmetric])
  with True show ?thesis by (simp add: continue_creating_def rep_inv_appended)
next
  case False
  with assms show ?thesis by (simp add: continue_creating_def rep_inv_spawn)
qed

lemma rep_inv_after_listing:
  assumes "rep_inv s" "c_phase (call_of s c) = Listing" "c < n_calls s"
  shows "rep_inv (after_listing c blocks s)"
proof (cases "sanitizeBlocks blocks")
  case (Inl e)
  with assms show ?thesis by (simp add: after_listing_def rep_inv_reject)
next
  case (Inr sanitized)
  with assms show ?thesis
    by (simp add: after_listing_def rep_inv_continue_creating pre_join_def)
qed


text \<open>Changing the stage of an item.\<close>

lemma no_waiter_unsettled:
  assumes "inv_calls s" "c < n_calls s" "c_waiter (call_of s c) = Some t"
    "promise_of (t_stage (task_of s t)) = None"
  shows "t_stage (task_of s t) = Awaiting c"
  using assms unfolding inv_calls_def by force

lemma inv_calls_set_stage:
  assumes "inv_calls s"
    and "\<forall>c < n_calls s. c_waiter (call_of s c) = Some t \<longrightarrow>
           (\<exists>r. c_phase (call_of s c) = Done r \<and> promise_of st = Some r)"
  shows "inv_calls (set_stage t st s)"
  using assms unfolding inv_calls_def set_stage_def
  by (auto split: if_splits)

lemma inv_tasks_set_stage:
  assumes "inv_tasks s"
    and "promise_of (t_stage (task_of s t)) = Some (Resolved ()) \<longrightarrow> promise_of st = Some (Resolved ())"
  shows "inv_tasks (set_stage t st s)"
  using assms unfolding inv_tasks_def set_stage_def
  by (auto split: if_splits)

lemma inv_queue_set_stage:
  assumes "inv_queue s" "t \<notin> set (queue s)"
  shows "inv_queue (set_stage t st s)"
  using assms unfolding inv_queue_def set_stage_def
  by (auto split: if_splits)

lemma not_queued_not_in_queue:
  "inv_queue s \<Longrightarrow> t_stage (task_of s t) \<noteq> Queued \<Longrightarrow> t \<notin> set (queue s)"
  unfolding inv_queue_def by blast

text \<open>Starting an item that has just left the queue.\<close>

lemma queued_no_waiter:
  assumes "inv_calls s" "t_stage (task_of s t) = Queued" "c < n_calls s"
  shows "c_waiter (call_of s c) \<noteq> Some t"
proof
  assume "c_waiter (call_of s c) = Some t"
  with assms have "t_stage (task_of s t) = Awaiting c" by (intro no_waiter_unsettled) simp_all
  with assms(2) show False by simp
qed

lemma rep_inv_returned:
  assumes "rep_inv s" "t \<notin> set (queue s)" "t_stage (task_of s t) = Queued"
  shows "rep_inv (set_stage t Returned s)"
proof -
  from assms have "inv_calls (set_stage t Returned s)"
    by (intro inv_calls_set_stage) (auto simp: rep_inv_def dest: queued_no_waiter)
  moreover from assms have "inv_tasks (set_stage t Returned s)"
    by (intro inv_tasks_set_stage) (auto simp: rep_inv_def)
  moreover from assms have "inv_queue (set_stage t Returned s)"
    by (intro inv_queue_set_stage) (auto simp: rep_inv_def)
  ultimately show ?thesis by (simp add: rep_inv_def)
qed

lemma rep_inv_awaiting:
  assumes inv: "rep_inv s" and nq: "t \<notin> set (queue s)" and q: "t_stage (task_of s t) = Queued"
    and t: "t < n_tasks s"
  shows "rep_inv ((set_stage t (Awaiting (n_calls s)) s)
                    \<lparr>n_calls := Suc (n_calls s),
                     call_of := (call_of s)(n_calls s :=
                        \<lparr>c_source = a, c_target = b, c_waiter = Some t, c_phase = Listing\<rparr>)\<rparr>)"
    (is "rep_inv ?s")
proof -
  from inv have ic: "inv_calls s" and it: "inv_tasks s" and iq: "inv_queue s"
    by (simp_all add: rep_inv_def)
  have nw: "\<forall>c < n_calls s. c_waiter (call_of s c) \<noteq> Some t"
    using ic q by (blast dest: queued_no_waiter)
  from it t have own: "t_owner (task_of s t) < n_calls s" unfolding inv_tasks_def by blast
  have "inv_calls ?s"
    using ic nw t own unfolding inv_calls_def set_stage_def
    by (auto simp: less_Suc_eq)
  moreover have "inv_tasks ?s"
    using it q own unfolding inv_tasks_def set_stage_def
    by (auto simp: less_Suc_eq)
  moreover have "inv_queue ?s"
    using iq nq unfolding inv_queue_def set_stage_def by auto
  ultimately show ?thesis by (simp add: rep_inv_def)
qed

lemma rep_inv_start_task:
  assumes "rep_inv s" "t \<notin> set (queue s)" "t_stage (task_of s t) = Queued" "t < n_tasks s"
  shows "rep_inv (start_task t s)"
  using assms
  by (auto simp: start_task_def rep_inv_returned rep_inv_awaiting split: option.splits)

lemma rep_next_cases:
  "rep_next s = s \<or>
   (\<exists>t rest. queue s = t # rest \<and>
      rep_next s = start_task t (s\<lparr>queue := rest, active := active s + 1\<rparr>))"
  by (auto simp: rep_next_def lim_next_def split: list.splits)

lemma rep_inv_pop:
  assumes "rep_inv s" "queue s = t # rest"
  shows "rep_inv (s\<lparr>queue := rest, active := a\<rparr>)"
    and "t \<notin> set rest" and "t_stage (task_of s t) = Queued" and "t < n_tasks s"
  using assms by (auto simp: rep_inv_def inv_calls_def inv_tasks_def inv_queue_def)

lemma rep_inv_next:
  assumes "rep_inv s"
  shows "rep_inv (rep_next s)"
proof -
  from rep_next_cases [of s] show ?thesis
  proof
    assume "rep_next s = s" with assms show ?thesis by simp
  next
    assume "\<exists>t rest. queue s = t # rest \<and>
      rep_next s = start_task t (s\<lparr>queue := rest, active := active s + 1\<rparr>)"
    then obtain t rest where q: "queue s = t # rest"
      and n: "rep_next s = start_task t (s\<lparr>queue := rest, active := active s + 1\<rparr>)" by blast
    note p = rep_inv_pop(1) [OF assms q, of "active s + 1"] rep_inv_pop(2-4) [OF assms q]
    have "rep_inv (start_task t (s\<lparr>queue := rest, active := active s + 1\<rparr>))"
      using p by (intro rep_inv_start_task) simp_all
    with n show ?thesis by simp
  qed
qed


lemma pass_on_id: "pass_on r = r"
  by (cases r) (simp_all add: pass_on_def)

lemma rep_inv_settle:
  assumes inv: "rep_inv s"
    and st: "t_stage (task_of s t) = Returned \<and> r = Resolved () \<or>
             (\<exists>c. t_stage (task_of s t) = Awaiting c \<and> c_phase (call_of s c) = Done r)"
  shows "rep_inv (set_stage t (Settled r) s)"
proof -
  from inv have ic: "inv_calls s" and it: "inv_tasks s" and iq: "inv_queue s"
    by (simp_all add: rep_inv_def)
  from st have none: "promise_of (t_stage (task_of s t)) = None" by auto
  have "\<forall>c < n_calls s. c_waiter (call_of s c) = Some t \<longrightarrow>
           (\<exists>r'. c_phase (call_of s c) = Done r' \<and> promise_of (Settled r) = Some r')"
  proof (intro allI impI)
    fix c assume c: "c < n_calls s" "c_waiter (call_of s c) = Some t"
    with ic none have "t_stage (task_of s t) = Awaiting c" by (intro no_waiter_unsettled)
    with st have "c_phase (call_of s c) = Done r" by auto
    then show "\<exists>r'. c_phase (call_of s c) = Done r' \<and> promise_of (Settled r) = Some r'" by simp
  qed
  with ic have "inv_calls (set_stage t (Settled r) s)" by (rule inv_calls_set_stage)
  moreover from it none have "inv_tasks (set_stage t (Settled r) s)"
    by (intro inv_tasks_set_stage) simp_all
  moreover from st have "t_stage (task_of s t) \<noteq> Queued" by auto
  with iq have "inv_queue (set_stage t (Settled r) s)"
    by (intro inv_queue_set_stage not_queued_not_in_queue)
  ultimately show ?thesis by (simp add: rep_inv_def)
qed

lemma rep_inv_release:
  assumes inv: "rep_inv s" and st: "t_stage (task_of s t) = Settled r"
  shows "rep_inv (set_stage t (Released r) s)"
proof -
  from inv have ic: "inv_calls s" and it: "inv_tasks s" and iq: "inv_queue s"
    by (simp_all add: rep_inv_def)
  have "\<forall>c < n_calls s. c_waiter (call_of s c) = Some t \<longrightarrow>
           (\<exists>r'. c_phase (call_of s c) = Done r' \<and> promise_of (Released r) = Some r')"
    using ic st unfolding inv_calls_def by force
  with ic have "inv_calls (set_stage t (Released r) s)" by (rule inv_calls_set_stage)
  moreover from it st have "inv_tasks (set_stage t (Released r) s)"
    by (intro inv_tasks_set_stage) simp_all
  moreover from st have "t_stage (task_of s t) \<noteq> Queued" by auto
  with iq have "inv_queue (set_stage t (Released r) s)"
    by (intro inv_queue_set_stage not_queued_not_in_queue)
  ultimately show ?thesis by (simp add: rep_inv_def)
qed

lemma rep_inv_fulfil:
  assumes "rep_inv s" "c_phase (call_of s c) = Joining ids"
    "\<forall>t \<in> set ids. promise_of (t_stage (task_of s t)) = Some (Resolved ())"
  shows "rep_inv (set_phase c (Done (Resolved ())) s)"
  using assms
  by (simp add: rep_inv_def inv_calls_set_phase inv_queue_set_phase inv_tasks_fulfil)

lemma rep_inv_step:
  assumes inv: "rep_inv s" and step: "rep_step s e = Some s'"
  shows "rep_inv s'"
proof (cases e)
  case (ListDone c r)
  with step have g: "c < n_calls s" "c_phase (call_of s c) = Listing"
    and s': "s' = (case r of Rejected e \<Rightarrow> set_phase c (Done (Rejected e)) s
                   | Resolved blocks \<Rightarrow> after_listing c blocks s)"
    by (auto split: if_splits)
  show ?thesis unfolding s' using inv g
    by (cases r) (simp_all add: rep_inv_reject rep_inv_after_listing)
next
  case (AppendDone c r)
  with step obtain blocks sanitized i created where
    g: "c < n_calls s" "c_phase (call_of s c) = Creating blocks sanitized i created"
    and s': "s' = (case r of Rejected e \<Rightarrow> set_phase c (Done (Rejected e)) s
                   | Resolved results \<Rightarrow>
                       continue_creating c blocks sanitized (i + 50) (created @ results)
                         (s\<lparr>r_dest := r_dest s @ results\<rparr>))"
    by (auto split: if_splits call_state.splits)
  from g(2) have pj: "pre_join s c" by (simp add: pre_join_def)
  show ?thesis
  proof (cases r)
    case (Rejected e)
    with inv g show ?thesis unfolding s' by (simp add: rep_inv_reject)
  next
    case (Resolved results)
    have "rep_inv (continue_creating c blocks sanitized (i + 50) (created @ results)
                         (s\<lparr>r_dest := r_dest s @ results\<rparr>))"
      using inv g pj by (intro rep_inv_continue_creating) (simp_all add: rep_inv_dest pre_join_dest)
    with Resolved show ?thesis unfolding s' by simp
  qed
next
  case Timer
  with step have s': "s' = rep_next (s\<lparr>r_timers := r_timers s - 1\<rparr>)"
    by (auto split: if_splits)
  from inv show ?thesis unfolding s' by (intro rep_inv_next) (simp add: rep_inv_timers)
next
  case (TaskSettle t)
  with step obtain r where
    st: "t_stage (task_of s t) = Returned \<and> r = Resolved () \<or>
             (\<exists>c. t_stage (task_of s t) = Awaiting c \<and> c_phase (call_of s c) = Done r)"
    and s': "s' = set_stage t (Settled r) s"
    by (auto simp: pass_on_id split: if_splits task_state.splits call_state.splits)
  from inv st show ?thesis unfolding s' by (rule rep_inv_settle)
next
  case (TaskRelease t)
  with step obtain r where st: "t_stage (task_of s t) = Settled r"
    and s': "s' = rep_next ((set_stage t (Released r) s)\<lparr>active := active s - 1\<rparr>)"
    by (auto split: if_splits task_state.splits)
  from inv st have "rep_inv (set_stage t (Released r) s)" by (rule rep_inv_release)
  then show ?thesis unfolding s' by (intro rep_inv_next) (simp add: rep_inv_active)
next
  case (JoinAll c)
  with step obtain ids where g: "c_phase (call_of s c) = Joining ids"
    "\<forall>t \<in> set ids. promise_of (t_stage (task_of s t)) = Some (Resolved ())"
    and s': "s' = set_phase c (Done (Resolved ())) s"
    by (auto split: if_splits call_state.splits)
  from inv g show ?thesis unfolding s' by (rule rep_inv_fulfil)
next
  case (JoinReject c t)
  with step obtain ids e' where g: "c_phase (call_of s c) = Joining ids"
    and s': "s' = set_phase c (Done (Rejected e')) s"
    by (auto split: if_splits call_state.splits option.splits outcome.splits)
  from inv g show ?thesis unfolding s' by (intro rep_inv_reject) simp_all
qed

lemma rep_inv_run: "rep_inv s \<Longrightarrow> rep_run s evs = Some s' \<Longrightarrow> rep_inv s'"
proof (induction evs arbitrary: s)
  case Nil then show ?case by simp
next
  case (Cons e evs)
  from Cons.prems(2) obtain s1 where s1: "rep_step s e = Some s1" "rep_run s1 evs = Some s'"
    by (auto split: option.splits)
  from Cons.prems(1) s1(1) have "rep_inv s1" by (rule rep_inv_step)
  then show ?case using s1(2) by (rule Cons.IH)
qed

lemma rep_inv_reachable: "rep_run (rep_init a b) evs = Some s \<Longrightarrow> rep_inv s"
  using rep_inv_init by (rule rep_inv_run)


text \<open>A call that has fulfilled: the calls it spawned have fulfilled.\<close>

lemma child_fulfilled:
  assumes inv: "rep_inv s" and c: "c_phase (call_of s c) = Done (Resolved ())"
    and ch: "child_of s c' c"
  shows "c_phase (call_of s c') = Done (Resolved ())"
proof -
  from ch obtain t where c': "c' < n_calls s" and w: "c_waiter (call_of s c') = Some t"
    and o: "t_owner (task_of s t) = c"
    by (auto simp: child_of_def split: option.splits)
  from inv have ic: "inv_calls s" and it: "inv_tasks s" by (simp_all add: rep_inv_def)
  from ic c' w have t: "t < n_tasks s"
    and alt: "t_stage (task_of s t) = Awaiting c' \<or>
      (\<exists>r. c_phase (call_of s c') = Done r \<and> promise_of (t_stage (task_of s t)) = Some r)"
    unfolding inv_calls_def by blast+
  from it t o c have "promise_of (t_stage (task_of s t)) = Some (Resolved ())"
    unfolding inv_tasks_def by blast
  with alt show ?thesis by auto
qed

lemma descendant_fulfilled:
  assumes "rep_inv s" "descendant s c' c" "c_phase (call_of s c) = Done (Resolved ())"
  shows "c_phase (call_of s c') = Done (Resolved ())"
  using assms(2,3)
proof (induction rule: descendant.induct)
  case (direct c' c)
  from assms(1) direct(2,1) show ?case by (rule child_fulfilled)
next
  case (deeper c' c'' c)
  then have "c_phase (call_of s c'') = Done (Resolved ())" by simp
  from assms(1) this deeper(1) show ?case by (rule child_fulfilled)
qed

lemma all_descend:
  assumes inv: "rep_inv s"
  shows "c < n_calls s \<Longrightarrow> c \<noteq> 0 \<Longrightarrow> descendant s c 0"
proof (induction c rule: less_induct)
  case (less c)
  from inv have ic: "inv_calls s" by (simp add: rep_inv_def)
  from ic less.prems obtain t where w: "c_waiter (call_of s c) = Some t"
    unfolding inv_calls_def by (cases "c_waiter (call_of s c)") auto
  with ic less.prems have o: "t_owner (task_of s t) < c" unfolding inv_calls_def by blast
  from w less.prems have ch: "child_of s c (t_owner (task_of s t))" by (simp add: child_of_def)
  show ?case
  proof (cases "t_owner (task_of s t) = 0")
    case True
    with ch show ?thesis by (auto intro: descendant.direct)
  next
    case False
    from o less.prems have "t_owner (task_of s t) < n_calls s" by simp
    with o False have "descendant s (t_owner (task_of s t)) 0" by (intro less.IH)
    with ch show ?thesis by (rule descendant.deeper)
  qed
qed

text \<open>A rejection travels up to the top-level call through the promise reactions.\<close>

lemma reaction_enabled:
  assumes inv: "rep_inv s" and nr: "\<not> root_rejected s"
  shows "c < n_calls s \<Longrightarrow> c_phase (call_of s c) = Done (Rejected e) \<Longrightarrow>
         \<exists>ev. reaction ev \<and> rep_step s ev \<noteq> None"
proof (induction c arbitrary: e rule: less_induct)
  case (less c)
  from inv have ic: "inv_calls s" and it: "inv_tasks s" by (simp_all add: rep_inv_def)
  have c0: "c \<noteq> 0"
  proof
    assume "c = 0"
    with less.prems(2) have "root_rejected s" unfolding root_rejected_def by blast
    with nr show False by simp
  qed
  with ic less.prems obtain t where w: "c_waiter (call_of s c) = Some t"
    unfolding inv_calls_def by (cases "c_waiter (call_of s c)") auto
  with ic less.prems have t: "t < n_tasks s" and o: "t_owner (task_of s t) < c"
    and alt: "t_stage (task_of s t) = Awaiting c \<or>
      (\<exists>r. c_phase (call_of s c) = Done r \<and> promise_of (t_stage (task_of s t)) = Some r)"
    unfolding inv_calls_def by blast+
  from alt show ?case
  proof
    assume "t_stage (task_of s t) = Awaiting c"
    with t less.prems have "reaction (TaskSettle t) \<and> rep_step s (TaskSettle t) \<noteq> None" by simp
    then show ?thesis by blast
  next
    assume "\<exists>r. c_phase (call_of s c) = Done r \<and> promise_of (t_stage (task_of s t)) = Some r"
    with less.prems have p: "promise_of (t_stage (task_of s t)) = Some (Rejected e)" by simp
    let ?o = "t_owner (task_of s t)"
    from it t have on: "?o < n_calls s"
      and ph: "c_phase (call_of s ?o) \<noteq> Listing"
        "\<forall>b sn i cr. c_phase (call_of s ?o) \<noteq> Creating b sn i cr"
        "\<forall>ids. c_phase (call_of s ?o) = Joining ids \<longrightarrow> t \<in> set ids"
        "c_phase (call_of s ?o) = Done (Resolved ()) \<longrightarrow>
           promise_of (t_stage (task_of s t)) = Some (Resolved ())"
      unfolding inv_tasks_def by blast+
    show ?thesis
    proof (cases "c_phase (call_of s ?o)")
      case Listing with ph show ?thesis by simp
    next
      case (Creating b sn i cr) with ph show ?thesis by simp
    next
      case (Joining ids)
      with ph have "t \<in> set ids" by simp
      with Joining on p have "reaction (JoinReject ?o t) \<and> rep_step s (JoinReject ?o t) \<noteq> None"
        by simp
      then show ?thesis by blast
    next
      case (Done r0)
      show ?thesis
      proof (cases r0)
        case (Resolved u)
        with Done ph(4) p show ?thesis by simp
      next
        case (Rejected e0)
        with Done on o show ?thesis by (intro less.IH [of ?o e0]) simp_all
      qed
    qed
  qed
qed

lemma finite_open_tasks: "finite {t. t < n_tasks s \<and> promise_of (t_stage (task_of s t)) = None}"
  by simp

lemma finite_open_calls: "finite {c. c < n_calls s \<and> (\<forall>r. c_phase (call_of s c) \<noteq> Done r)}"
  by simp

lemma open_work_settle:
  assumes "t < n_tasks s" "promise_of (t_stage (task_of s t)) = None"
  shows "open_work (set_stage t (Settled r) s) < open_work s"
proof -
  let ?s = "set_stage t (Settled r) s"
  let ?A = "{u. u < n_tasks s \<and> promise_of (t_stage (task_of s u)) = None}"
  have same: "n_calls ?s = n_calls s" "call_of ?s = call_of s" "n_tasks ?s = n_tasks s"
    by (simp_all add: set_stage_def)
  have "\<And>u. promise_of (t_stage (task_of ?s u)) = None \<longleftrightarrow>
            u \<noteq> t \<and> promise_of (t_stage (task_of s u)) = None"
    by (simp add: set_stage_def)
  then have "{u. u < n_tasks ?s \<and> promise_of (t_stage (task_of ?s u)) = None} = ?A - {t}"
    unfolding same by blast
  moreover from assms have "t \<in> ?A" by simp
  then have "card (?A - {t}) < card ?A" by (intro card_Diff1_less) simp_all
  ultimately show ?thesis unfolding open_work_def same by simp
qed

lemma open_work_done:
  assumes "c < n_calls s" "\<forall>r. c_phase (call_of s c) \<noteq> Done r"
  shows "open_work (set_phase c (Done r) s) < open_work s"
proof -
  let ?s = "set_phase c (Done r) s"
  let ?A = "{u. u < n_calls s \<and> (\<forall>r. c_phase (call_of s u) \<noteq> Done r)}"
  have same: "n_calls ?s = n_calls s" "task_of ?s = task_of s" "n_tasks ?s = n_tasks s"
    by (simp_all add: set_phase_def)
  have "\<And>u. (\<forall>r'. c_phase (call_of ?s u) \<noteq> Done r') \<longleftrightarrow>
            u \<noteq> c \<and> (\<forall>r'. c_phase (call_of s u) \<noteq> Done r')"
    by (simp add: set_phase_def)
  then have "{u. u < n_calls ?s \<and> (\<forall>r'. c_phase (call_of ?s u) \<noteq> Done r')} = ?A - {c}"
    unfolding same by blast
  moreover from assms have "c \<in> ?A" by simp
  then have "card (?A - {c}) < card ?A" by (intro card_Diff1_less) simp_all
  ultimately show ?thesis unfolding open_work_def same by simp
qed


lemma reaction_effect:
  assumes "reaction ev" "rep_step s ev = Some s'"
  shows "(\<exists>t r. t < n_tasks s \<and> promise_of (t_stage (task_of s t)) = None \<and>
                s' = set_stage t (Settled r) s) \<or>
         (\<exists>c r. c < n_calls s \<and> (\<forall>r'. c_phase (call_of s c) \<noteq> Done r') \<and>
                s' = set_phase c (Done r) s)"
proof (cases ev)
  case (TaskSettle t)
  with assms(2) have "\<exists>r. t < n_tasks s \<and> promise_of (t_stage (task_of s t)) = None \<and>
                s' = set_stage t (Settled r) s"
    by (auto split: if_splits task_state.splits call_state.splits)
  then show ?thesis by blast
next
  case (JoinAll c)
  with assms(2) have "\<exists>r. c < n_calls s \<and> (\<forall>r'. c_phase (call_of s c) \<noteq> Done r') \<and>
                s' = set_phase c (Done r) s"
    by (auto split: if_splits call_state.splits)
  then show ?thesis by blast
next
  case (JoinReject c t)
  with assms(2) have "\<exists>r. c < n_calls s \<and> (\<forall>r'. c_phase (call_of s c) \<noteq> Done r') \<and>
                s' = set_phase c (Done r) s"
    by (auto split: if_splits call_state.splits option.splits outcome.splits)
  then show ?thesis by blast
qed (use assms(1) in simp_all)

lemma open_work_decreases:
  assumes "reaction ev" "rep_step s ev = Some s'"
  shows "open_work s' < open_work s"
  using reaction_effect [OF assms] open_work_settle open_work_done by blast

lemma rejected_stays:
  assumes "reaction ev" "rep_step s ev = Some s'"
    and "c < n_calls s" "c_phase (call_of s c) = Done (Rejected e)"
  shows "c < n_calls s' \<and> c_phase (call_of s' c) = Done (Rejected e)"
  using reaction_effect [OF assms(1,2)] assms(3,4)
  by (auto simp: set_stage_def set_phase_def)

lemma rejects_eventually_inv:
  "rep_inv s \<Longrightarrow> c < n_calls s \<Longrightarrow> c_phase (call_of s c) = Done (Rejected e) \<Longrightarrow>
   rejects_eventually s"
proof (induction "open_work s" arbitrary: s rule: less_induct)
  case less
  show ?case
  proof (cases "root_rejected s")
    case True then show ?thesis by (rule rejects_eventually.now)
  next
    case False
    show ?thesis
    proof (rule rejects_eventually.later)
      from less.prems(1) False less.prems(2,3)
      show "\<exists>ev. reaction ev \<and> rep_step s ev \<noteq> None" by (rule reaction_enabled)
    next
      fix ev s'
      assume ev: "reaction ev" "rep_step s ev = Some s'"
      then have "open_work s' < open_work s" by (rule open_work_decreases)
      moreover from less.prems(1) ev(2) have "rep_inv s'" by (rule rep_inv_step)
      moreover from ev less.prems(2,3)
      have "c < n_calls s' \<and> c_phase (call_of s' c) = Done (Rejected e)" by (rule rejected_stays)
      ultimately show "rejects_eventually s'" by (intro less.hyps) simp_all
    qed
  qed
qed

text \<open>Nothing takes a created node away.\<close>

lemma r_dest_simps:
  "r_dest (set_phase c ph s) = r_dest s"
  "r_dest (set_stage t st s) = r_dest s"
  "r_dest (spawn c blocks created s) = r_dest s"
  "r_dest (continue_creating c blocks sanitized i created s) = r_dest s"
  "r_dest (start_task t s) = r_dest s"
  by (simp_all add: set_phase_def set_stage_def spawn_def continue_creating_def start_task_def
        Let_def split: option.splits)

lemma r_dest_after_listing: "r_dest (after_listing c blocks s) = r_dest s"
  by (simp add: after_listing_def r_dest_simps split: sum.splits)

lemma r_dest_rep_next: "r_dest (rep_next s) = r_dest s"
  using rep_next_cases [of s] by (auto simp: r_dest_simps)

lemma r_dest_step: "rep_step s ev = Some s' \<Longrightarrow> \<exists>more. r_dest s' = r_dest s @ more"
  by (cases ev)
     (auto simp: r_dest_simps r_dest_after_listing r_dest_rep_next
           split: if_splits outcome.splits call_state.splits task_state.splits option.splits)

lemma r_dest_run: "rep_run s evs = Some s' \<Longrightarrow> \<exists>more. r_dest s' = r_dest s @ more"
proof (induction evs arbitrary: s)
  case Nil then show ?case by simp
next
  case (Cons ev evs)
  from Cons.prems obtain s1 where s1: "rep_step s ev = Some s1" "rep_run s1 evs = Some s'"
    by (auto split: option.splits)
  from s1(1) obtain m1 where "r_dest s1 = r_dest s @ m1" using r_dest_step by blast
  moreover from s1(2) obtain m2 where "r_dest s' = r_dest s1 @ m2" using Cons.IH by blast
  ultimately have "r_dest s' = r_dest s @ (m1 @ m2)" by simp
  then show ?case by blast
qed

text \<open>
  C5 (amended). In every state the replicator reaches from a top-level call: every other
  call is a subtree replication the top-level call spawned, directly or through other calls;
  a call that has fulfilled has all the calls it spawned, transitively, fulfilled (so the
  top-level promise fulfils only after the whole subtree has); if any call has rejected, the
  top-level promise rejects once the pending promise reactions have run, whichever run; and
  whatever happens afterwards, the nodes reported created stay: nothing is rolled back.
\<close>

theorem replicate_completion:
  assumes "rep_run (rep_init sourceBlockId targetParent) evs = Some s"
  shows "(\<forall>c < n_calls s. c \<noteq> 0 \<longrightarrow> descendant s c 0) \<and>
         (\<forall>c c'. c_phase (call_of s c) = Done (Resolved ()) \<and> descendant s c' c \<longrightarrow>
                 c_phase (call_of s c') = Done (Resolved ())) \<and>
         ((\<exists>c < n_calls s. \<exists>e. c_phase (call_of s c) = Done (Rejected e)) \<longrightarrow>
            rejects_eventually s) \<and>
         (\<forall>evs' s'. rep_run s evs' = Some s' \<longrightarrow> (\<exists>more. r_dest s' = r_dest s @ more))"
proof -
  from assms have inv: "rep_inv s" by (rule rep_inv_reachable)
  have "\<forall>c < n_calls s. c \<noteq> 0 \<longrightarrow> descendant s c 0"
    using all_descend [OF inv] by blast
  moreover have "\<forall>c c'. c_phase (call_of s c) = Done (Resolved ()) \<and> descendant s c' c \<longrightarrow>
                 c_phase (call_of s c') = Done (Resolved ())"
    using descendant_fulfilled [OF inv] by blast
  moreover have "(\<exists>c < n_calls s. \<exists>e. c_phase (call_of s c) = Done (Rejected e)) \<longrightarrow>
            rejects_eventually s"
    using rejects_eventually_inv [OF inv] by blast
  moreover have "\<forall>evs' s'. rep_run s evs' = Some s' \<longrightarrow> (\<exists>more. r_dest s' = r_dest s @ more)"
    using r_dest_run by blast
  ultimately show ?thesis by blast
qed

lemmas rep_eval =
  rep_init_def set_phase_def set_stage_def spawn_def continue_creating_def after_listing_def
  start_task_def rep_next_def lim_next_def slice_def pass_on_def
  sanitizeBlocks_def first_unused_def block_identities_def sanitize_block_def js_member_def
  copy_payload_def copy_rich_text_def mark_children_def js_prop_def rich_text_of_def
  inherited_functions_def Let_def

text \<open>
  C5 as stated fails: \<open>Promise.all\<close> rejects at the first rejection. With two children
  that have children, when the listing of the first subtree fails, the top-level promise
  rejects while the replication of the second subtree, which it spawned, is still listing.
\<close>

theorem replicate_settles_early_counterexample:
  "rep_run (rep_init (JStr ''root'') (JStr ''page''))
     [ListDone 0 (Resolved [[(''id'', JStr ''a''), (''type'', JStr ''toggle''), (''toggle'', JObj 1 []),
                             (''has_children'', JBool True)],
                            [(''id'', JStr ''b''), (''type'', JStr ''toggle''), (''toggle'', JObj 2 []),
                             (''has_children'', JBool True)]]),
      AppendDone 0 (Resolved [[(''id'', JStr ''a2'')], [(''id'', JStr ''b2'')]]),
      Timer, Timer,
      ListDone 1 (Rejected (Err (Some 404) None ''gone'')),
      TaskSettle 0,
      JoinReject 0 0] \<noteq> None \<and>
   c_phase (call_of (the (rep_run (rep_init (JStr ''root'') (JStr ''page''))
     [ListDone 0 (Resolved [[(''id'', JStr ''a''), (''type'', JStr ''toggle''), (''toggle'', JObj 1 []),
                             (''has_children'', JBool True)],
                            [(''id'', JStr ''b''), (''type'', JStr ''toggle''), (''toggle'', JObj 2 []),
                             (''has_children'', JBool True)]]),
      AppendDone 0 (Resolved [[(''id'', JStr ''a2'')], [(''id'', JStr ''b2'')]]),
      Timer, Timer,
      ListDone 1 (Rejected (Err (Some 404) None ''gone'')),
      TaskSettle 0,
      JoinReject 0 0])) 0) = Done (Rejected (Err (Some 404) None ''gone'')) \<and>
   child_of (the (rep_run (rep_init (JStr ''root'') (JStr ''page''))
     [ListDone 0 (Resolved [[(''id'', JStr ''a''), (''type'', JStr ''toggle''), (''toggle'', JObj 1 []),
                             (''has_children'', JBool True)],
                            [(''id'', JStr ''b''), (''type'', JStr ''toggle''), (''toggle'', JObj 2 []),
                             (''has_children'', JBool True)]]),
      AppendDone 0 (Resolved [[(''id'', JStr ''a2'')], [(''id'', JStr ''b2'')]]),
      Timer, Timer,
      ListDone 1 (Rejected (Err (Some 404) None ''gone'')),
      TaskSettle 0,
      JoinReject 0 0])) 2 0 \<and>
   c_phase (call_of (the (rep_run (rep_init (JStr ''root'') (JStr ''page''))
     [ListDone 0 (Resolved [[(''id'', JStr ''a''), (''type'', JStr ''toggle''), (''toggle'', JObj 1 []),
                             (''has_children'', JBool True)],
                            [(''id'', JStr ''b''), (''type'', JStr ''toggle''), (''toggle'', JObj 2 []),
                             (''has_children'', JBool True)]]),
      AppendDone 0 (Resolved [[(''id'', JStr ''a2'')], [(''id'', JStr ''b2'')]]),
      Timer, Timer,
      ListDone 1 (Rejected (Err (Some 404) None ''gone'')),
      TaskSettle 0,
      JoinReject 0 0])) 2) = Listing"
  by (simp add: rep_eval child_of_def)


theorem replicate_completion_witness:
  "rejects_eventually (the (rep_run (rep_init (JStr ''root'') (JStr ''page''))
     [ListDone 0 (Resolved [[(''id'', JStr ''a''), (''type'', JStr ''toggle''), (''toggle'', JObj 1 []),
                             (''has_children'', JBool True)]]),
      AppendDone 0 (Resolved [[(''id'', JStr ''a2'')]]),
      Timer,
      ListDone 1 (Rejected (Err (Some 404) None ''gone''))])) \<and>
   descendant (the (rep_run (rep_init (JStr ''root'') (JStr ''page''))
     [ListDone 0 (Resolved [[(''id'', JStr ''a''), (''type'', JStr ''toggle''), (''toggle'', JObj 1 []),
                             (''has_children'', JBool True)]]),
      AppendDone 0 (Resolved [[(''id'', JStr ''a2'')]]),
      Timer,
      ListDone 1 (Rejected (Err (Some 404) None ''gone''))])) 1 0 \<and>
   r_dest (the (rep_run (rep_init (JStr ''root'') (JStr ''page''))
     [ListDone 0 (Resolved [[(''id'', JStr ''a''), (''type'', JStr ''toggle''), (''toggle'', JObj 1 []),
                             (''has_children'', JBool True)]]),
      AppendDone 0 (Resolved [[(''id'', JStr ''a2'')]]),
      Timer,
      ListDone 1 (Rejected (Err (Some 404) None ''gone''))])) = [[(''id'', JStr ''a2'')]]"
proof -
  let ?evs = "[ListDone 0 (Resolved [[(''id'', JStr ''a''), (''type'', JStr ''toggle''), (''toggle'', JObj 1 []),
                             (''has_children'', JBool True)]]),
      AppendDone 0 (Resolved [[(''id'', JStr ''a2'')]]),
      Timer,
      ListDone 1 (Rejected (Err (Some 404) None ''gone''))]"
  obtain s where r: "rep_run (rep_init (JStr ''root'') (JStr ''page'')) ?evs = Some s"
    and n: "n_calls s = 2"
    and ph: "c_phase (call_of s 1) = Done (Rejected (Err (Some 404) None ''gone''))"
    and d: "r_dest s = [[(''id'', JStr ''a2'')]]"
    by (simp add: rep_eval)
  note t = replicate_completion [OF r]
  from n have "descendant s 1 0" using t [THEN conjunct1, rule_format, of 1] by simp
  moreover from n ph have "\<exists>c < n_calls s. \<exists>e. c_phase (call_of s c) = Done (Rejected e)"
    by (intro exI [of _ 1]) simp
  then have "rejects_eventually s" using t by blast
  ultimately show ?thesis using r d by simp
qed


end
